theory Spec2Isabelle
  imports Main
begin

section \<open>Values exchanged with the outside world\<close>

text \<open>
  Go's \<open>any\<close> values that the program handles are JSON values: \<open>nil\<close> is \<open>JNull\<close>, a Go
  string is \<open>JStr\<close>, a \<open>map[string]any\<close> is \<open>JObj\<close>. The program never looks inside a
  number, so the representation of \<open>JNum\<close> plays no role.
\<close>

datatype json = JNull | JBool bool | JNum int | JStr string | JArr "json list"
  | JObj "(string \<times> json) list"

type_synonym vars = "(string \<times> json) list"

text \<open>
  Go errors. The two messages that \<open>client.go\<close> formats itself are constructors of their
  own; an error handed back by a library call (net/http, encoding/json, context) is
  \<open>LibError\<close> with its message; \<open>Canceled\<close> is \<open>ctx.Err()\<close> of a context that is
  done. \<open>UnmarshalTypeError\<close> is the error of encoding/json for a JSON value that is
  not of the kind the Go target takes. \<open>NilBody\<close> stands for the nil dereference that
  \<open>processRequest\<close> would run into if \<open>Do\<close> returned neither a body nor an error.
\<close>

datatype error =
    InvalidStatus int
  | InvalidLoginStatus int
  | NoAccessToken
  | LibError string
  | UnmarshalTypeError
  | Canceled
  | NilBody

section \<open>batch/config.go and batch/client.go\<close>

record OAuthConfig =
  oa_URL :: string
  oa_ClientID :: string
  oa_ClientSecret :: string
  oa_Scope :: string

text \<open>
  \<open>http.Header\<close> is a map from (canonical) header names to value lists. \<open>Add\<close> appends
  a value, \<open>Set\<close> replaces the list. Header names are taken in canonical MIME form, as
  \<open>ReadMIMEHeader\<close> leaves them in \<open>NewClient\<close> and as the two literals of \<open>Do\<close> are.
\<close>

type_synonym header = "string \<Rightarrow> string list option"

definition header_Add :: "string \<Rightarrow> string \<Rightarrow> header \<Rightarrow> header" where
  "header_Add k v h = h(k \<mapsto> (case h k of None \<Rightarrow> [v] | Some vs \<Rightarrow> vs @ [v]))"

definition header_Set :: "string \<Rightarrow> string \<Rightarrow> header \<Rightarrow> header" where
  "header_Set k v h = h(k \<mapsto> [v])"

definition header_Values :: "header \<Rightarrow> string \<Rightarrow> string list" where
  "header_Values h k = (case h k of None \<Rightarrow> [] | Some vs \<Rightarrow> vs)"

datatype body = JsonBody string vars | FormBody "(string \<times> string) list"

record request =
  rq_method :: string
  rq_url :: string
  rq_header :: header
  rq_body :: body

record response =
  rs_status :: int
  rs_body :: string

text \<open>
  The library calls whose results the client depends on. \<open>send\<close> is
  \<open>httpClient.Do\<close>: a transport error or a response. \<open>decode_login\<close> is
  \<open>json.NewDecoder(body).Decode\<close> into the login struct (a missing field keeps its zero
  value). \<open>read_value\<close> is what a JSON decoder reads from a body as its first value: the
  error it stops with (a syntax error, \<open>io.EOF\<close> on an empty body) or the value.
\<close>

record env =
  marshal_error :: "vars \<Rightarrow> error option"
  new_request_error :: "string \<Rightarrow> error option"
  basic_auth :: "string \<Rightarrow> string \<Rightarrow> string"
  send :: "request \<Rightarrow> error + response"
  decode_login :: "string \<Rightarrow> error + (string \<times> int)"
  read_value :: "string \<Rightarrow> error + json"

text \<open>
  The client. The header map is listed as its key/value-list pairs (a Go map has no
  duplicate keys; the order of the list is the order in which \<open>range\<close> happens to visit
  it). \<open>c_timers\<close> holds the instants (in nanoseconds, the unit of \<open>time.Duration\<close>) at
  which a pending \<open>time.AfterFunc\<close> callback clears the token, and \<open>c_logins\<close> counts the
  calls of \<open>login\<close>; both are bookkeeping of the model. The mutex is not modelled: one
  call of \<open>ensureValidToken\<close> is one step.
\<close>

record client =
  c_query :: string
  c_url :: string
  c_header :: "(string \<times> string list) list"
  c_oauth :: "OAuthConfig option"
  c_token :: "string option"
  c_timers :: "int list"
  c_logins :: nat

definition swrap64 :: "int \<Rightarrow> int" where
  "swrap64 x = (x + 2 ^ 63) mod 2 ^ 64 - 2 ^ 63"

text \<open>
  \<open>time.Duration(math.Floor(float64(resp.ExpiresIn)*0.9)) * time.Second\<close>, in
  nanoseconds. The definition floors the exact product \<open>9 * ExpiresIn / 10\<close>, where the
  code floors the \<open>float64\<close> product after its rounding. The two agree for
  \<open>0 \<le> ExpiresIn \<le> 10^10\<close>, the lifetimes the theorems below speak of: there the
  rounding error is below \<open>2^-19\<close>, and a product that is a whole number rounds to
  itself. They differ for very large lifetimes (from about \<open>1.25 * 10^15\<close> seconds, where
  neighbouring floats are more than \<open>0.1\<close> apart), and there the definition is not the
  code. The multiplication by \<open>time.Second\<close> is an \<open>int64\<close> multiplication and wraps.
\<close>

definition expiresIn90p :: "int \<Rightarrow> int" where
  "expiresIn90p ExpiresIn = swrap64 ((9 * ExpiresIn) div 10 * 1000000000)"

definition login_request :: "env \<Rightarrow> OAuthConfig \<Rightarrow> request" where
  "login_request env oa =
     \<lparr> rq_method = ''POST'', rq_url = oa_URL oa,
       rq_header = header_Set ''Authorization''
                     (''Basic '' @ basic_auth env (oa_ClientID oa) (oa_ClientSecret oa))
                     (header_Set ''Content-Type'' ''application/x-www-form-urlencoded''
                        Map.empty),
       rq_body = FormBody [(''grant_type'', ''client_credentials''), (''scope'', oa_Scope oa)] \<rparr>"

text \<open>
  \<open>login\<close> returns the access token together with the delay after which the timer it
  arms clears the cached token.
\<close>

definition login :: "env \<Rightarrow> OAuthConfig \<Rightarrow> error + (string \<times> int)" where
  "login env oa =
     (case new_request_error env (oa_URL oa) of
        Some err \<Rightarrow> Inl err
      | None \<Rightarrow>
         (case send env (login_request env oa) of
            Inl err \<Rightarrow> Inl err
          | Inr response \<Rightarrow>
              if rs_status response \<noteq> 200
              then Inl (InvalidLoginStatus (rs_status response))
              else (case decode_login env (rs_body response) of
                      Inl err \<Rightarrow> Inl err
                    | Inr (AccessToken, ExpiresIn) \<Rightarrow>
                        if AccessToken = '''' then Inl NoAccessToken
                        else Inr (AccessToken, expiresIn90p ExpiresIn))))"

definition ensureValidToken :: "env \<Rightarrow> int \<Rightarrow> client \<Rightarrow> client \<times> (error + string)" where
  "ensureValidToken env now c =
     (case c_oauth c of
        None \<Rightarrow> (case c_token c of None \<Rightarrow> (c, Inr '''') | Some t \<Rightarrow> (c, Inr t))
      | Some oa \<Rightarrow>
          let token = (case c_token c of Some t \<Rightarrow> t | None \<Rightarrow> '''') in
          if token \<noteq> '''' then (c, Inr token)
          else (case c_token c of
                  Some t \<Rightarrow> (c, Inr t)
                | None \<Rightarrow>
                   (case login env oa of
                      Inl err \<Rightarrow> (c\<lparr>c_logins := Suc (c_logins c)\<rparr>, Inl err)
                    | Inr (token', d) \<Rightarrow>
                        (c\<lparr>c_token := Some token', c_timers := (now + d) # c_timers c,
                           c_logins := Suc (c_logins c)\<rparr>, Inr token'))))"

text \<open>Lines 95 to 108 of \<open>Do\<close>: the request it builds for a token and a variable set.\<close>

definition Do_request :: "client \<Rightarrow> string \<Rightarrow> vars \<Rightarrow> request" where
  "Do_request c token variables =
     (let h0 = fold (\<lambda>(hk, hv) h. fold (\<lambda>v. header_Add hk v) hv h) (c_header c) Map.empty;
          h1 = header_Set ''Content-Type'' ''application/json'' h0;
          h2 = (if token \<noteq> '''' then header_Set ''Authorization'' (''Bearer '' @ token) h1
                else h1)
      in \<lparr> rq_method = ''POST'', rq_url = c_url c, rq_header = h2,
           rq_body = JsonBody (c_query c) variables \<rparr>)"

definition Do :: "env \<Rightarrow> int \<Rightarrow> client \<Rightarrow> vars \<Rightarrow> client \<times> string option \<times> error option" where
  "Do env now c variables =
     (case ensureValidToken env now c of
        (c', Inl err) \<Rightarrow> (c', None, Some err)
      | (c', Inr token) \<Rightarrow>
          (case marshal_error env variables of
             Some err \<Rightarrow> (c', None, Some err)
           | None \<Rightarrow>
              (case new_request_error env (c_url c') of
                 Some err \<Rightarrow> (c', None, Some err)
               | None \<Rightarrow>
                  (case send env (Do_request c' token variables) of
                     Inl err \<Rightarrow> (c', None, Some err)
                   | Inr response \<Rightarrow>
                       if rs_status response < 200 \<or> rs_status response \<ge> 300
                       then (c', Some (rs_body response),
                             Some (InvalidStatus (rs_status response)))
                       else (c', Some (rs_body response), None)))))"

section \<open>processRequest (package batch, the file of Run and RunWith)\<close>

text \<open>
  \<open>json.NewDecoder(responseBody).Decode(&response)\<close> for \<open>response := map[string]any{}\<close>:
  a JSON object fills the map, the JSON value \<open>null\<close> sets the map to \<open>nil\<close> (the result
  \<open>None\<close>) without an error, and a JSON value of any other kind is an
  \<open>UnmarshalTypeError\<close>.
\<close>

definition decode_response :: "env \<Rightarrow> string \<Rightarrow> error + vars option" where
  "decode_response env b =
     (case read_value env b of
        Inl err \<Rightarrow> Inl err
      | Inr (JObj m) \<Rightarrow> Inr (Some m)
      | Inr JNull \<Rightarrow> Inr None
      | Inr _ \<Rightarrow> Inl UnmarshalTypeError)"

text \<open>
  \<open>processRequest\<close>. With an error of \<open>Do\<close> its first result is \<open>string(response)\<close>, the
  body read so far or the empty string when there is none. After a decode error it is
  \<open>nil\<close>. Otherwise it is the map, and a \<open>nil\<close> map is written as \<open>null\<close> like \<open>nil\<close>.
\<close>

definition processRequest :: "env \<Rightarrow> int \<Rightarrow> client \<Rightarrow> vars \<Rightarrow> client \<times> json \<times> error option" where
  "processRequest env now c variables =
     (case Do env now c variables of
        (c', responseBody, Some err) \<Rightarrow>
          (c', JStr (case responseBody of None \<Rightarrow> '''' | Some b \<Rightarrow> b), Some err)
      | (c', Some b, None) \<Rightarrow>
          (case decode_response env b of
             Inl err \<Rightarrow> (c', JNull, Some err)
           | Inr None \<Rightarrow> (c', JNull, None)
           | Inr (Some response) \<Rightarrow> (c', JObj response, None))
      | (c', None, None) \<Rightarrow> (c', JNull, Some NilBody))"

text \<open>
  A timer whose instant has passed has run its callback (\<open>c.token = nil\<close>); one whose
  instant is exactly now may or may not have run yet, which \<open>tie\<close> decides. A call of
  \<open>ensureValidToken\<close> at the instant \<open>now\<close> sees the client after the due timers.
\<close>

definition timer_due :: "bool \<Rightarrow> int \<Rightarrow> int \<Rightarrow> bool" where
  "timer_due tie now deadline = (deadline < now \<or> (tie \<and> deadline = now))"

definition fire_timers :: "bool \<Rightarrow> int \<Rightarrow> client \<Rightarrow> client" where
  "fire_timers tie now c =
     (if list_ex (timer_due tie now) (c_timers c)
      then c\<lparr>c_token := None, c_timers := filter (\<lambda>d. \<not> timer_due tie now d) (c_timers c)\<rparr>
      else c)"

definition ensureValidToken_at :: "bool \<Rightarrow> int \<Rightarrow> env \<Rightarrow> client \<Rightarrow> client \<times> (error + string)" where
  "ensureValidToken_at tie now env c = ensureValidToken env now (fire_timers tie now c)"

section \<open>batch/stats.go\<close>

text \<open>
  The two implementations of the \<open>Stats\<close> interface. The counters are \<open>int64\<close> in the
  source; a run would need \<open>2^63\<close> increments to wrap them, so they are natural numbers
  here.
\<close>

datatype stats = VerboseStats nat nat | SilentStats

fun AddProcessed :: "stats \<Rightarrow> stats" where
  "AddProcessed (VerboseStats processed errors) = VerboseStats (processed + 1) errors"
| "AddProcessed SilentStats = SilentStats"

fun AddError :: "stats \<Rightarrow> stats" where
  "AddError (VerboseStats processed errors) = VerboseStats processed (errors + 1)"
| "AddError SilentStats = SilentStats"

fun Values :: "stats \<Rightarrow> nat \<times> nat" where
  "Values (VerboseStats processed errors) = (processed, errors)"
| "Values SilentStats = (0, 0)"

definition PrintStats :: "bool \<Rightarrow> stats" where
  "PrintStats verbose = (if \<not> verbose then SilentStats else VerboseStats 0 0)"

section \<open>RunWith: the dispatch loop and its goroutines\<close>

text \<open>
  The \<open>result\<close> struct. Row numbers are Go \<open>int\<close>s that start at 0 and only grow by one
  per record read, so they are natural numbers here.
\<close>

record result =
  Row :: nat
  Input :: "vars option"
  Output :: json
  Error :: "error option"

text \<open>
  What a run is given from outside: the size of the semaphore, the result of
  \<open>processRequest\<close> for the call of a row, whether an \<open>Encode\<close> of a record fails, and
  what \<open>Acquire\<close> does when the context is done while a permit is free (newer versions
  of the semaphore package fail, older ones grant the permit).
\<close>

record world =
  connections :: int
  outcome :: "nat \<Rightarrow> vars \<Rightarrow> json \<times> error option"
  encode_error :: "result \<Rightarrow> error option"
  acquire_checks_ctx :: bool

text \<open>
  The positions inside \<open>writeError\<close> (three shared-memory actions: \<open>stats.AddError()\<close>,
  \<open>stats.AddProcessed()\<close>, \<open>errOutput.Encode\<close>) and inside \<open>writeResponse\<close> (two:
  \<open>stats.AddProcessed()\<close>, \<open>output.Encode\<close>).
\<close>

datatype wstage = E_AddError | E_AddProcessed | E_Encode | R_AddProcessed | R_Encode

text \<open>
  Where the loop of \<open>RunWith\<close> stands: before \<open>row++\<close> and \<open>input.Decode\<close>; inside the
  \<open>checkAndWriteError\<close> after a failed \<open>Decode\<close>; at \<open>sm.Acquire\<close>; inside the
  \<open>checkAndWriteError\<close> after a failed \<open>Acquire\<close>; at \<open>wg.Add(1)\<close> and the \<open>go\<close>
  statement; at \<open>wg.Wait()\<close>; returned.
\<close>

datatype mpc =
    Decode
  | ReadError wstage result
  | Acquire vars
  | AcquireError wstage result vars
  | Go vars
  | Wait
  | Return "error option"

text \<open>
  Where a launched goroutine stands: at \<open>processRequest\<close>; inside \<open>writeError\<close> or
  \<open>writeResponse\<close>; at the deferred \<open>sm.Release(1)\<close>; at the deferred \<open>wg.Done()\<close>;
  finished.
\<close>

datatype wpc = WCall | WWrite wstage result | WRelease | WDone | WExit

record worker =
  w_row :: nat
  w_variables :: vars
  w_pc :: wpc

text \<open>
  \<open>input\<close> lists what the coming calls of \<open>input.Decode\<close> return before \<open>io.EOF\<close>: an
  error, or the decoded variable set. (A decoder that never reaches \<open>io.EOF\<close>, as the
  one of encoding/json after a syntax error, which it repeats on every later call, has no
  such list and is outside the model.) \<open>okOutput\<close> and \<open>errOutput\<close> are the records
  encoded so far on the parameters \<open>output\<close> and \<open>errOutput\<close> of \<open>RunWith\<close>, \<open>cur\<close> is
  the number of permits of \<open>sm\<close> that are held and \<open>wg\<close> the counter of the wait group.
\<close>

record state =
  input :: "(error + vars) list"
  row :: nat
  main :: mpc
  cur :: int
  wg :: nat
  workers :: "worker list"
  okOutput :: "result list"
  errOutput :: "result list"
  stats :: stats
  ctx_done :: bool
  panicked :: bool

definition RunWith_init :: "(error + vars) list \<Rightarrow> stats \<Rightarrow> state" where
  "RunWith_init inp st =
     \<lparr> input = inp, row = 0, main = Decode, cur = 0, wg = 0, workers = [], okOutput = [],
       errOutput = [], stats = st, ctx_done = False, panicked = False \<rparr>"

text \<open>
  One action of \<open>writeError\<close> or \<open>writeResponse\<close>: the new state, the next position
  (\<open>None\<close> when the function has returned) and the error it returned.
\<close>

fun write_step :: "world \<Rightarrow> wstage \<Rightarrow> result \<Rightarrow> state \<Rightarrow> state \<times> wstage option \<times> error option" where
  "write_step w E_AddError r s = (s\<lparr>stats := AddError (stats s)\<rparr>, Some E_AddProcessed, None)"
| "write_step w E_AddProcessed r s = (s\<lparr>stats := AddProcessed (stats s)\<rparr>, Some E_Encode, None)"
| "write_step w E_Encode r s =
     (case encode_error w r of
        Some err \<Rightarrow> (s, None, Some err)
      | None \<Rightarrow> (s\<lparr>errOutput := errOutput s @ [r]\<rparr>, None, None))"
| "write_step w R_AddProcessed r s = (s\<lparr>stats := AddProcessed (stats s)\<rparr>, Some R_Encode, None)"
| "write_step w R_Encode r s =
     (case encode_error w r of
        Some err \<Rightarrow> (s, None, Some err)
      | None \<Rightarrow> (s\<lparr>okOutput := okOutput s @ [r]\<rparr>, None, None))"

text \<open>
  The next action of the loop; \<open>None\<close> when it is blocked (in \<open>Acquire\<close> with no permit
  free and the context not done, in \<open>wg.Wait()\<close> with goroutines outstanding) or has
  returned. After a failed \<open>Decode\<close> the map \<open>variables\<close> is the empty map the iteration
  created.
\<close>

definition main_step :: "world \<Rightarrow> state \<Rightarrow> state option" where
  "main_step w s =
     (case main s of
        Decode \<Rightarrow>
          (case input s of
             [] \<Rightarrow> Some (s\<lparr>row := row s + 1, main := Wait\<rparr>)
           | Inl err # rest \<Rightarrow>
               Some (s\<lparr>row := row s + 1, input := rest,
                       main := ReadError E_AddError
                         \<lparr>Row = row s + 1, Input = None, Output = JNull, Error = Some err\<rparr>\<rparr>)
           | Inr variables # rest \<Rightarrow>
               Some (s\<lparr>row := row s + 1, input := rest, main := Acquire variables\<rparr>))
      | ReadError st r \<Rightarrow>
          (case write_step w st r s of
             (s', Some st', _) \<Rightarrow> Some (s'\<lparr>main := ReadError st' r\<rparr>)
           | (s', None, Some err) \<Rightarrow> Some (s'\<lparr>main := Return (Some err)\<rparr>)
           | (s', None, None) \<Rightarrow> Some (s'\<lparr>main := Acquire []\<rparr>))
      | Acquire variables \<Rightarrow>
          if ctx_done s \<and> (acquire_checks_ctx w \<or> connections w - cur s < 1)
          then Some (s\<lparr>main := AcquireError E_AddError
                         \<lparr>Row = row s, Input = None, Output = JNull, Error = Some Canceled\<rparr>
                         variables\<rparr>)
          else if connections w - cur s \<ge> 1
          then Some (s\<lparr>cur := cur s + 1, main := Go variables\<rparr>)
          else None
      | AcquireError st r variables \<Rightarrow>
          (case write_step w st r s of
             (s', Some st', _) \<Rightarrow> Some (s'\<lparr>main := AcquireError st' r variables\<rparr>)
           | (s', None, Some err) \<Rightarrow> Some (s'\<lparr>main := Return (Some err)\<rparr>)
           | (s', None, None) \<Rightarrow> Some (s'\<lparr>main := Go variables\<rparr>))
      | Go variables \<Rightarrow>
          Some (s\<lparr>wg := wg s + 1,
                  workers := workers s @ [\<lparr>w_row = row s, w_variables = variables, w_pc = WCall\<rparr>],
                  main := Decode\<rparr>)
      | Wait \<Rightarrow> if wg s = 0 then Some (s\<lparr>main := Return None\<rparr>) else None
      | Return _ \<Rightarrow> None)"

text \<open>
  The next action of the goroutine launched \<open>i\<close>-th. A failed \<open>Encode\<close> panics, and so
  does a \<open>Release\<close> of a permit that is not held (and a \<open>wg.Done()\<close> below zero); a
  panic ends the program.
\<close>

definition set_pc :: "nat \<Rightarrow> wpc \<Rightarrow> state \<Rightarrow> state" where
  "set_pc i pc s = s\<lparr>workers := (workers s)[i := (workers s ! i)\<lparr>w_pc := pc\<rparr>]\<rparr>"

definition worker_step :: "world \<Rightarrow> nat \<Rightarrow> state \<Rightarrow> state option" where
  "worker_step w i s =
     (if i \<ge> length (workers s) then None
      else
        let wk = workers s ! i in
        (case w_pc wk of
           WCall \<Rightarrow>
             (case outcome w (w_row wk) (w_variables wk) of
                (response, Some err) \<Rightarrow>
                  Some (set_pc i (WWrite E_AddError
                          \<lparr>Row = w_row wk, Input = Some (w_variables wk), Output = response,
                           Error = Some err\<rparr>) s)
              | (response, None) \<Rightarrow>
                  Some (set_pc i (WWrite R_AddProcessed
                          \<lparr>Row = w_row wk, Input = Some (w_variables wk), Output = response,
                           Error = None\<rparr>) s))
         | WWrite st r \<Rightarrow>
             (case write_step w st r s of
                (s', Some st', _) \<Rightarrow> Some (set_pc i (WWrite st' r) s')
              | (s', None, Some err) \<Rightarrow> Some (s'\<lparr>panicked := True\<rparr>)
              | (s', None, None) \<Rightarrow> Some (set_pc i WRelease s'))
         | WRelease \<Rightarrow>
             if cur s - 1 < 0 then Some (s\<lparr>panicked := True\<rparr>)
             else Some (set_pc i WDone (s\<lparr>cur := cur s - 1\<rparr>))
         | WDone \<Rightarrow>
             if wg s = 0 then Some (s\<lparr>panicked := True\<rparr>)
             else Some (set_pc i WExit (s\<lparr>wg := wg s - 1\<rparr>))
         | WExit \<Rightarrow> None))"

text \<open>
  A run is a sequence of events: an action of the loop, an action of a goroutine, or the
  cancellation of the context from outside. Nothing happens after a panic or after
  \<open>RunWith\<close> has returned.
\<close>

datatype event = EvMain | EvWorker nat | EvCancel

fun returned :: "mpc \<Rightarrow> bool" where
  "returned (Return _) = True"
| "returned _ = False"

definition step :: "world \<Rightarrow> event \<Rightarrow> state \<Rightarrow> state option" where
  "step w e s =
     (if panicked s \<or> returned (main s) then None
      else (case e of
              EvMain \<Rightarrow> main_step w s
            | EvWorker i \<Rightarrow> worker_step w i s
            | EvCancel \<Rightarrow> if ctx_done s then None else Some (s\<lparr>ctx_done := True\<rparr>)))"

fun exec :: "world \<Rightarrow> event list \<Rightarrow> state \<Rightarrow> state option" where
  "exec w [] s = Some s"
| "exec w (e # es) s = (case step w e s of None \<Rightarrow> None | Some s' \<Rightarrow> exec w es s')"

section \<open>Run and NewClient: what happens before the first row\<close>

record Config =
  cfg_URL :: string
  cfg_Connections :: int
  cfg_Verbose :: bool
  cfg_Headers :: "string list"
  cfg_BearerToken :: string
  cfg_OAuth :: OAuthConfig
  cfg_QueryFile :: string
  cfg_InputFile :: string
  cfg_OutputFile :: string
  cfg_ErrorFile :: string

text \<open>
  The file system and the header parser as \<open>Run\<close> and \<open>NewClient\<close> see them: whether
  \<open>os.Open\<close> and \<open>os.Create\<close> of a name fail, what \<open>io.ReadAll\<close> of an opened file
  returns, what the JSON decoder on an input (the empty name is the standard input)
  returns call after call before \<open>io.EOF\<close>, and what \<open>ReadMIMEHeader\<close> makes of the
  configured header lines.
\<close>

record files =
  fs_open :: "string \<Rightarrow> error option"
  fs_read :: "string \<Rightarrow> error + string"
  fs_create :: "string \<Rightarrow> error option"
  fs_records :: "string \<Rightarrow> (error + vars) list"
  fs_mime :: "string list \<Rightarrow> error + (string \<times> string list) list"

definition readFile :: "files \<Rightarrow> string \<Rightarrow> error + string" where
  "readFile fs name = (case fs_open fs name of Some err \<Rightarrow> Inl err | None \<Rightarrow> fs_read fs name)"

definition openInput :: "files \<Rightarrow> string \<Rightarrow> error + (error + vars) list" where
  "openInput fs inputFile =
     (if inputFile = '''' then Inr (fs_records fs '''')
      else (case fs_open fs inputFile of
              Some err \<Rightarrow> Inl err
            | None \<Rightarrow> Inr (fs_records fs inputFile)))"

definition openOutput :: "files \<Rightarrow> string \<Rightarrow> error option" where
  "openOutput fs outputFile = (if outputFile = '''' then None else fs_create fs outputFile)"

text \<open>
  \<open>NewClient\<close> also copies \<open>config.Connections\<close> into three limits of the HTTP transport,
  without looking at its value; the transport is not part of the model.
\<close>

definition NewClient :: "files \<Rightarrow> Config \<Rightarrow> string \<Rightarrow> error + client" where
  "NewClient fs config q =
     (case (if cfg_Headers config \<noteq> [] then fs_mime fs (cfg_Headers config) else Inr []) of
        Inl err \<Rightarrow> Inl err
      | Inr h \<Rightarrow>
          Inr \<lparr> c_query = q, c_url = cfg_URL config, c_header = h,
                c_oauth = (if oa_URL (cfg_OAuth config) \<noteq> '''' then Some (cfg_OAuth config)
                           else None),
                c_token = (if cfg_BearerToken config \<noteq> '''' then Some (cfg_BearerToken config)
                           else None),
                c_timers = [], c_logins = 0 \<rparr>)"

text \<open>
  \<open>Run\<close> up to its call of \<open>RunWith\<close>: the error it returns before any row, or the
  client, the \<open>connections\<close> argument and the state in which \<open>RunWith\<close> starts.
\<close>

definition Run :: "files \<Rightarrow> Config \<Rightarrow> error + (client \<times> int \<times> state)" where
  "Run fs config =
     (case readFile fs (cfg_QueryFile config) of
        Inl err \<Rightarrow> Inl err
      | Inr q \<Rightarrow>
         (case openInput fs (cfg_InputFile config) of
            Inl err \<Rightarrow> Inl err
          | Inr inp \<Rightarrow>
             (case openOutput fs (cfg_OutputFile config) of
                Some err \<Rightarrow> Inl err
              | None \<Rightarrow>
                 (case openOutput fs (cfg_ErrorFile config) of
                    Some err \<Rightarrow> Inl err
                  | None \<Rightarrow>
                     (case NewClient fs config q of
                        Inl err \<Rightarrow> Inl err
                      | Inr c \<Rightarrow>
                          Inr (c, cfg_Connections config,
                               RunWith_init inp (PrintStats (cfg_Verbose config))))))))"

section \<open>Bookkeeping over the states of a run\<close>

text \<open>
  The position of the \<open>writeError\<close> or \<open>writeResponse\<close> call that the loop or a goroutine
  is inside of, if any.
\<close>

fun main_stage :: "mpc \<Rightarrow> wstage option" where
  "main_stage (ReadError st r) = Some st"
| "main_stage (AcquireError st r variables) = Some st"
| "main_stage _ = None"

fun worker_stage :: "wpc \<Rightarrow> wstage option" where
  "worker_stage (WWrite st r) = Some st"
| "worker_stage _ = None"

text \<open>
  A call at one of the two \<open>Encode\<close> positions has incremented \<open>processed\<close> for a record
  that is not written yet; a \<open>writeError\<close> past its first action has incremented
  \<open>errors\<close> for one; a \<open>writeError\<close> between its two increments has counted its error
  but not yet its record.
\<close>

fun stage_processed :: "wstage \<Rightarrow> nat" where
  "stage_processed E_Encode = 1"
| "stage_processed R_Encode = 1"
| "stage_processed _ = 0"

fun stage_errors :: "wstage \<Rightarrow> nat" where
  "stage_errors E_AddProcessed = 1"
| "stage_errors E_Encode = 1"
| "stage_errors _ = 0"

fun stage_between :: "wstage \<Rightarrow> nat" where
  "stage_between E_AddProcessed = 1"
| "stage_between _ = 0"

definition of_stage :: "(wstage \<Rightarrow> nat) \<Rightarrow> wstage option \<Rightarrow> nat" where
  "of_stage f so = (case so of None \<Rightarrow> 0 | Some st \<Rightarrow> f st)"

definition in_progress :: "(wstage \<Rightarrow> nat) \<Rightarrow> state \<Rightarrow> nat" where
  "in_progress f s =
     of_stage f (main_stage (main s))
       + sum_list (map (\<lambda>wk. of_stage f (worker_stage (w_pc wk))) (workers s))"

definition running :: "worker \<Rightarrow> nat" where
  "running wk = (if w_pc wk = WExit then 0 else 1)"

text \<open>
  The counters of a \<open>VerboseStats\<close> against the two streams: every record written is
  counted, and so is every record whose writer stands before its \<open>Encode\<close>.
\<close>

definition counted :: "state \<Rightarrow> bool" where
  "counted s =
     (stats s = VerboseStats
        (length (okOutput s) + length (errOutput s) + in_progress stage_processed s)
        (length (errOutput s) + in_progress stage_errors s))"

fun returned_error :: "mpc \<Rightarrow> bool" where
  "returned_error (Return (Some err)) = True"
| "returned_error _ = False"

text \<open>
  An upper bound on the number of actions a state still has before it: every position
  weighs the longest way from it to the end, and a record still to be read weighs the
  longest handling of one row.
\<close>

fun stage_weight :: "wstage \<Rightarrow> nat" where
  "stage_weight E_AddError = 3"
| "stage_weight E_AddProcessed = 2"
| "stage_weight E_Encode = 1"
| "stage_weight R_AddProcessed = 2"
| "stage_weight R_Encode = 1"

fun wpc_weight :: "wpc \<Rightarrow> nat" where
  "wpc_weight WCall = 6"
| "wpc_weight (WWrite st r) = 2 + stage_weight st"
| "wpc_weight WRelease = 2"
| "wpc_weight WDone = 1"
| "wpc_weight WExit = 0"

fun mpc_weight :: "mpc \<Rightarrow> nat" where
  "mpc_weight (Return r) = 0"
| "mpc_weight Wait = 1"
| "mpc_weight Decode = 2"
| "mpc_weight (Go variables) = 9"
| "mpc_weight (AcquireError st r variables) = 9 + stage_weight st"
| "mpc_weight (Acquire variables) = 13"
| "mpc_weight (ReadError st r) = 13 + stage_weight st"

definition potential :: "state \<Rightarrow> nat" where
  "potential s =
     15 * length (input s) + mpc_weight (main s)
       + sum_list (map (\<lambda>wk. wpc_weight (w_pc wk)) (workers s))
       + (if ctx_done s then 0 else 1) + (if panicked s then 0 else 1)"

text \<open>
  The rows: a row is held by the loop between its \<open>Decode\<close> and its \<open>go\<close> statement and
  by its goroutine until the record is encoded. \<open>row_count r s\<close> counts the records
  of row \<open>r\<close> on the two streams together with the holders of \<open>r\<close> that will still
  write one. \<open>rows_read\<close> is the number of records read so far (the last \<open>row++\<close>
  before \<open>io.EOF\<close> reads none).
\<close>

fun holds_row :: "mpc \<Rightarrow> bool" where
  "holds_row (Acquire variables) = True"
| "holds_row (Go variables) = True"
| "holds_row _ = False"

fun unwritten :: "wpc \<Rightarrow> bool" where
  "unwritten WCall = True"
| "unwritten (WWrite st r) = True"
| "unwritten _ = False"

fun holding :: "wpc \<Rightarrow> nat" where
  "holding WCall = 1"
| "holding (WWrite st r) = 1"
| "holding WRelease = 1"
| "holding _ = 0"

definition row_count :: "nat \<Rightarrow> state \<Rightarrow> nat" where
  "row_count r s =
     count_list (map Row (okOutput s)) r + count_list (map Row (errOutput s)) r
       + sum_list (map (\<lambda>wk. if unwritten (w_pc wk) \<and> w_row wk = r then 1 else 0) (workers s))
       + (if holds_row (main s) \<and> row s = r then 1 else 0)"

definition rows_read :: "state \<Rightarrow> nat" where
  "rows_read s = (if main s = Wait \<or> returned (main s) then row s - 1 else row s)"

fun write_of_row :: "nat \<Rightarrow> wpc \<Rightarrow> bool" where
  "write_of_row n (WWrite st r) = (Row r = n)"
| "write_of_row n _ = True"

text \<open>
  What holds in every state of a run whose records all decode, whose context is not
  cancelled and whose encoders do not fail: no panic, the loop is never inside a
  \<open>writeError\<close>, every record read is accounted for exactly once, and the permits held
  are those of the goroutines before their \<open>Release\<close> and of the loop before its \<open>go\<close>
  statement.
\<close>

definition clean :: "nat \<Rightarrow> state \<Rightarrow> bool" where
  "clean n s =
     (\<not> ctx_done s \<and> \<not> panicked s \<and> main_stage (main s) = None
      \<and> \<not> returned_error (main s)
      \<and> list_all (\<lambda>x. \<not> isl x) (input s)
      \<and> ((main s = Wait \<or> returned (main s)) \<longrightarrow> input s = [] \<and> 1 \<le> row s)
      \<and> rows_read s + length (input s) = n
      \<and> (\<forall>r. row_count r s = (if 1 \<le> r \<and> r \<le> rows_read s then 1 else 0))
      \<and> list_all (\<lambda>wk. write_of_row (w_row wk) (w_pc wk)) (workers s)
      \<and> wg s = sum_list (map running (workers s))
      \<and> cur s = int (sum_list (map (\<lambda>wk. holding (w_pc wk)) (workers s)))
                 + (case main s of Go variables \<Rightarrow> 1 | _ \<Rightarrow> 0))"

section \<open>Concrete configurations\<close>

definition oa_example :: OAuthConfig where
  "oa_example = \<lparr> oa_URL = ''https://auth.example/token'', oa_ClientID = ''id'',
                   oa_ClientSecret = ''secret'', oa_Scope = ''api'' \<rparr>"

text \<open>
  A remote side that answers every request with the given status and body. The login
  decoder reads the token \<open>tok\<close> with the given lifetime; the JSON decoder reads the
  object \<open>{"data": 2}\<close> from the body \<open>ok\<close>, the array \<open>[1, 2]\<close> and \<open>null\<close> from the
  bodies of that text, and stops with a syntax error on any other body.
  \<open>env_unreachable\<close> is the same with a transport that fails.
\<close>

definition env_example :: "int \<Rightarrow> string \<Rightarrow> int \<Rightarrow> env" where
  "env_example status b lifetime =
     \<lparr> marshal_error = (\<lambda>_. None), new_request_error = (\<lambda>_. None),
       basic_auth = (\<lambda>u p. u @ '':'' @ p),
       send = (\<lambda>_. Inr \<lparr> rs_status = status, rs_body = b \<rparr>),
       decode_login = (\<lambda>_. Inr (''tok'', lifetime)),
       read_value = (\<lambda>b. if b = ''ok'' then Inr (JObj [(''data'', JNum 2)])
                           else if b = ''[1, 2]'' then Inr (JArr [JNum 1, JNum 2])
                           else if b = ''null'' then Inr JNull
                           else Inl (LibError ''invalid character'')) \<rparr>"

definition env_unreachable :: env where
  "env_unreachable =
     (env_example 200 ''ok'' 0)\<lparr>send := (\<lambda>_. Inl (LibError ''connection refused''))\<rparr>"

definition client_example ::
  "(string \<times> string list) list \<Rightarrow> OAuthConfig option \<Rightarrow> string option \<Rightarrow> client" where
  "client_example h oa t =
     \<lparr> c_query = ''query Q($x:Int!){double(x:$x)}'', c_url = ''https://api.example/graphql'',
       c_header = h, c_oauth = oa, c_token = t, c_timers = [], c_logins = 0 \<rparr>"

text \<open>
  A run against an endpoint that answers every call with \<open>{"data": 2}\<close>, with encoders
  that never fail. \<open>bad_record\<close> is what \<open>Decode\<close> returns for an input record that is
  JSON but not an object, such as \<open>[1, 2]\<close>; the decoder goes on with the next record
  after it.
\<close>

definition world_example :: "int \<Rightarrow> world" where
  "world_example n =
     \<lparr> connections = n, outcome = (\<lambda>r variables. (JObj [(''data'', JNum 2)], None)),
       encode_error = (\<lambda>_. None), acquire_checks_ctx = True \<rparr>"

definition bad_record :: error where
  "bad_record = LibError ''json: cannot unmarshal array into Go value of type map[string]interface {}''"

text \<open>
  The loop waiting in \<open>Acquire\<close> for row 2 while the only permit is held by the call of
  row 1, with the context cancelled.
\<close>

definition blocked_example :: state where
  "blocked_example =
     \<lparr> input = [], row = 2, main = Acquire [(''x'', JNum 2)], cur = 1, wg = 1,
       workers = [\<lparr>w_row = 1, w_variables = [(''x'', JNum 1)], w_pc = WCall\<rparr>],
       okOutput = [], errOutput = [], stats = SilentStats, ctx_done = True,
       panicked = False \<rparr>"

text \<open>
  A configuration with the given concurrency limit, and files in which the query file
  is readable and the input holds one record that does not decode followed by one that
  does.
\<close>

definition config_example :: "int \<Rightarrow> Config" where
  "config_example n =
     \<lparr> cfg_URL = ''https://api.example/graphql'', cfg_Connections = n, cfg_Verbose = False,
       cfg_Headers = [], cfg_BearerToken = '''',
       cfg_OAuth = \<lparr> oa_URL = '''', oa_ClientID = '''', oa_ClientSecret = '''', oa_Scope = '''' \<rparr>,
       cfg_QueryFile = ''query.graphql'', cfg_InputFile = ''variables.jsonl'',
       cfg_OutputFile = '''', cfg_ErrorFile = '''' \<rparr>"

definition files_example :: files where
  "files_example =
     \<lparr> fs_open = (\<lambda>_. None),
       fs_read = (\<lambda>_. Inr ''query Q($x:Int!){double(x:$x)}''),
       fs_create = (\<lambda>_. None),
       fs_records = (\<lambda>_. [Inl bad_record, Inr [(''x'', JNum 1)]]),
       fs_mime = (\<lambda>_. Inr []) \<rparr>"

section \<open>The login exchange\<close>

text \<open>
  C6 (as the code has it). \<open>login\<close> fails exactly when the request cannot be built or
  sent, or the status of the response is not 200 (a status 201 or 204 fails as well), or
  the body does not decode, or the decoded access token is empty. A response with status
  200 and a non-empty access token makes it succeed with that token, whatever lifetime
  the body carries; the timer is armed with \<open>expiresIn90p\<close> of that lifetime.
\<close>

theorem login_failure_cases:
  "((\<exists>err. login env oa = Inl err) \<longleftrightarrow>
      (new_request_error env (oa_URL oa) \<noteq> None \<or>
       (\<exists>err. send env (login_request env oa) = Inl err) \<or>
       (\<exists>response. send env (login_request env oa) = Inr response \<and>
          (rs_status response \<noteq> 200 \<or>
           (\<exists>err. decode_login env (rs_body response) = Inl err) \<or>
           (\<exists>ExpiresIn. decode_login env (rs_body response) = Inr ('''', ExpiresIn))))))
   \<and> (\<forall>response AccessToken ExpiresIn.
        new_request_error env (oa_URL oa) = None \<and>
        send env (login_request env oa) = Inr response \<and> rs_status response = 200 \<and>
        decode_login env (rs_body response) = Inr (AccessToken, ExpiresIn) \<and>
        AccessToken \<noteq> '''' \<longrightarrow>
        login env oa = Inr (AccessToken, expiresIn90p ExpiresIn))"
  by (auto simp: login_def split: option.splits sum.splits prod.splits if_splits)

theorem login_failure_cases_witness:
  "login (env_example 200 ''{}'' 3600) oa_example = Inr (''tok'', 3240000000000)
   \<and> (\<exists>err. login (env_example 500 ''{}'' 3600) oa_example = Inl err)"
  using login_failure_cases [of "env_example 200 ''{}'' 3600" oa_example]
        login_failure_cases [of "env_example 500 ''{}'' 3600" oa_example]
  by (simp add: env_example_def expiresIn90p_def swrap64_def)

text \<open>
  The claim as stated fails: a response with the 2xx status 201, a body that decodes and
  a non-empty access token is refused.
\<close>

theorem login_rejects_201:
  "send (env_example 201 ''{}'' 3600) (login_request (env_example 201 ''{}'' 3600) oa_example)
      = Inr \<lparr> rs_status = 201, rs_body = ''{}'' \<rparr>
   \<and> decode_login (env_example 201 ''{}'' 3600) ''{}'' = Inr (''tok'', 3600)
   \<and> login (env_example 201 ''{}'' 3600) oa_example = Inl (InvalidLoginStatus 201)"
  by (simp add: env_example_def login_def)

section \<open>One call\<close>

lemma Do_never_nil_nil: "Do env now c variables \<noteq> (c', None, None)"
  by (auto simp: Do_def split: prod.splits sum.splits option.splits if_splits)

text \<open>
  C7 (as the code has it). \<open>processRequest\<close> returns no error exactly when the call is
  made, the status is 2xx and the body decodes as a JSON object or as \<open>null\<close>; its
  output is then the decoded object, or \<open>null\<close>. A 2xx body that is not JSON, or is JSON
  of another kind (an array, a string, a number), gives the decoder's error with the
  output \<open>nil\<close>. Any other status gives an error together with the raw body as a string
  (the empty string for an empty body). A transport failure gives its error with the
  empty string as output, and so does a call that is not made because the token, the
  encoding of the variables or the construction of the request failed.
\<close>

theorem processRequest_outcome:
  "(\<forall>c' token response.
      ensureValidToken env now c = (c', Inr token) \<and> marshal_error env variables = None \<and>
      new_request_error env (c_url c') = None \<and>
      send env (Do_request c' token variables) = Inr response \<longrightarrow>
        (200 \<le> rs_status response \<and> rs_status response < 300 \<longrightarrow>
           (\<forall>m. read_value env (rs_body response) = Inr (JObj m) \<longrightarrow>
                processRequest env now c variables = (c', JObj m, None)) \<and>
           (read_value env (rs_body response) = Inr JNull \<longrightarrow>
                processRequest env now c variables = (c', JNull, None)) \<and>
           (\<forall>v. read_value env (rs_body response) = Inr v \<and> v \<noteq> JNull \<and> (\<forall>m. v \<noteq> JObj m) \<longrightarrow>
                processRequest env now c variables = (c', JNull, Some UnmarshalTypeError)) \<and>
           (\<forall>err. read_value env (rs_body response) = Inl err \<longrightarrow>
                processRequest env now c variables = (c', JNull, Some err))) \<and>
        (\<not> (200 \<le> rs_status response \<and> rs_status response < 300) \<longrightarrow>
           processRequest env now c variables =
             (c', JStr (rs_body response), Some (InvalidStatus (rs_status response)))))
   \<and> (\<forall>c' token err.
        ensureValidToken env now c = (c', Inr token) \<and> marshal_error env variables = None \<and>
        new_request_error env (c_url c') = None \<and>
        send env (Do_request c' token variables) = Inl err \<longrightarrow>
          processRequest env now c variables = (c', JStr '''', Some err))
   \<and> (\<forall>c' token err.
        ensureValidToken env now c = (c', Inl err) \<or>
        ensureValidToken env now c = (c', Inr token) \<and> marshal_error env variables = Some err \<or>
        ensureValidToken env now c = (c', Inr token) \<and> marshal_error env variables = None \<and>
          new_request_error env (c_url c') = Some err \<longrightarrow>
          processRequest env now c variables = (c', JStr '''', Some err))
   \<and> (snd (snd (processRequest env now c variables)) = None \<longleftrightarrow>
        (\<exists>c' token response.
           ensureValidToken env now c = (c', Inr token) \<and> marshal_error env variables = None \<and>
           new_request_error env (c_url c') = None \<and>
           send env (Do_request c' token variables) = Inr response \<and>
           200 \<le> rs_status response \<and> rs_status response < 300 \<and>
           (read_value env (rs_body response) = Inr JNull \<or>
            (\<exists>m. read_value env (rs_body response) = Inr (JObj m)))))"
proof -
  obtain c' r where t: "ensureValidToken env now c = (c', r)"
    by (cases "ensureValidToken env now c")
  show ?thesis
  proof (cases r)
    case (Inl err)
    with t show ?thesis by (simp add: processRequest_def Do_def)
  next
    case (Inr token)
    note tok = t [unfolded Inr]
    show ?thesis
    proof (cases "marshal_error env variables")
      case (Some err)
      with tok show ?thesis by (simp add: processRequest_def Do_def)
    next
      case None
      note m = None
      show ?thesis
      proof (cases "new_request_error env (c_url c')")
        case (Some err)
        with tok m show ?thesis by (simp add: processRequest_def Do_def)
      next
        case None
        note q = None
        show ?thesis
        proof (cases "send env (Do_request c' token variables)")
          case (Inl err)
          with tok m q show ?thesis by (simp add: processRequest_def Do_def)
        next
          case (Inr response)
          note s = Inr
          show ?thesis
          proof (cases "200 \<le> rs_status response \<and> rs_status response < 300")
            case False
            with tok m q s show ?thesis by (auto simp add: processRequest_def Do_def)
          next
            case True
            show ?thesis
            proof (cases "read_value env (rs_body response)")
              case (Inl err)
              with tok m q s True show ?thesis
                by (simp add: processRequest_def Do_def decode_response_def)
            next
              case (Inr v)
              with tok m q s True show ?thesis
                by (cases v) (simp_all add: processRequest_def Do_def decode_response_def)
            qed
          qed
        qed
      qed
    qed
  qed
qed

theorem processRequest_outcome_witness:
  "processRequest (env_example 200 ''ok'' 0) 0 (client_example [] None None) [(''x'', JNum 1)]
     = (client_example [] None None, JObj [(''data'', JNum 2)], None)
   \<and> processRequest (env_example 200 ''null'' 0) 0 (client_example [] None None) [(''x'', JNum 1)]
     = (client_example [] None None, JNull, None)
   \<and> processRequest (env_example 500 ''oops'' 0) 0 (client_example [] None None) [(''x'', JNum 1)]
     = (client_example [] None None, JStr ''oops'', Some (InvalidStatus 500))
   \<and> processRequest (env_example 200 ''<html>'' 0) 0 (client_example [] None None) [(''x'', JNum 1)]
     = (client_example [] None None, JNull, Some (LibError ''invalid character''))
   \<and> processRequest env_unreachable 0 (client_example [] None None) [(''x'', JNum 1)]
     = (client_example [] None None, JStr '''', Some (LibError ''connection refused''))"
  using processRequest_outcome [of "env_example 200 ''ok'' 0" 0 "client_example [] None None"
          "[(''x'', JNum 1)]"]
    processRequest_outcome [of "env_example 200 ''null'' 0" 0 "client_example [] None None"
          "[(''x'', JNum 1)]"]
    processRequest_outcome [of "env_example 500 ''oops'' 0" 0 "client_example [] None None"
          "[(''x'', JNum 1)]"]
    processRequest_outcome [of "env_example 200 ''<html>'' 0" 0 "client_example [] None None"
          "[(''x'', JNum 1)]"]
    processRequest_outcome [of env_unreachable 0 "client_example [] None None"
          "[(''x'', JNum 1)]"]
  by (simp add: env_example_def env_unreachable_def client_example_def ensureValidToken_def)

text \<open>
  The claim as stated fails: with status 200 and the body \<open>[1, 2]\<close>, which decodes as
  JSON, the outcome is a failure, because the target of the decoder is a map.
\<close>

theorem array_body_is_a_failure:
  "send (env_example 200 ''[1, 2]'' 0)
       (Do_request (client_example [] None None) '''' [(''x'', JNum 1)])
     = Inr \<lparr> rs_status = 200, rs_body = ''[1, 2]'' \<rparr>
   \<and> read_value (env_example 200 ''[1, 2]'' 0) ''[1, 2]'' = Inr (JArr [JNum 1, JNum 2])
   \<and> processRequest (env_example 200 ''[1, 2]'' 0) 0 (client_example [] None None)
        [(''x'', JNum 1)]
     = (client_example [] None None, JNull, Some UnmarshalTypeError)"
  by (simp add: env_example_def client_example_def ensureValidToken_def processRequest_def
      Do_def decode_response_def)

section \<open>The headers of a call\<close>

lemma fold_header_Add:
  "header_Values (fold (\<lambda>v. header_Add k v) vs h) k' =
     (if k' = k then header_Values h k @ vs else header_Values h k')"
  by (induction vs arbitrary: h) (auto simp: header_Add_def header_Values_def split: option.splits)

lemma fold_headers_other:
  "k \<notin> fst ` set xs \<Longrightarrow>
   header_Values (fold (\<lambda>(hk, hv) h. fold (\<lambda>v. header_Add hk v) hv h) xs h) k = header_Values h k"
  by (induction xs arbitrary: h) (auto simp: fold_header_Add)

lemma fold_headers_member:
  "distinct (map fst xs) \<Longrightarrow> (k, vs) \<in> set xs \<Longrightarrow>
   header_Values (fold (\<lambda>(hk, hv) h. fold (\<lambda>v. header_Add hk v) hv h) xs h) k
     = header_Values h k @ vs"
proof (induction xs arbitrary: h)
  case Nil
  then show ?case by simp
next
  case (Cons x xs)
  obtain hk hv where x: "x = (hk, hv)" by (cases x)
  show ?case
  proof (cases "(k, vs) = x")
    case True
    with Cons.prems x have "k \<notin> fst ` set xs" by auto
    with True x show ?thesis by (simp add: fold_headers_other fold_header_Add)
  next
    case False
    with Cons.prems x have mem: "(k, vs) \<in> set xs" and ne: "k \<noteq> hk" and d: "distinct (map fst xs)"
      by (auto simp: image_iff)
    from Cons.IH [OF d mem] ne x show ?thesis by (simp add: fold_header_Add)
  qed
qed

lemma header_Values_Set:
  "header_Values (header_Set k v h) k' = (if k' = k then [v] else header_Values h k')"
  by (simp add: header_Set_def header_Values_def)

text \<open>
  C9 (as the code has it). The request of \<open>Do\<close> carries \<open>Content-Type: application/json\<close>
  whatever the configured headers say. With a non-empty token it carries
  \<open>Authorization: Bearer <token>\<close>, which replaces a configured \<open>Authorization\<close> header
  too. Every other configured header keeps its configured values.
\<close>

theorem Do_request_headers:
  assumes "distinct (map fst (c_header c))"
  shows "header_Values (rq_header (Do_request c token variables)) ''Content-Type''
           = [''application/json'']
       \<and> (token \<noteq> '''' \<longrightarrow>
            header_Values (rq_header (Do_request c token variables)) ''Authorization''
              = [''Bearer '' @ token])
       \<and> (\<forall>k vs. (k, vs) \<in> set (c_header c) \<and> k \<noteq> ''Content-Type'' \<and>
                  (k \<noteq> ''Authorization'' \<or> token = '''') \<longrightarrow>
            header_Values (rq_header (Do_request c token variables)) k = vs)"
proof -
  have "header_Values (fold (\<lambda>(hk, hv) h. fold (\<lambda>v. header_Add hk v) hv h)
          (c_header c) Map.empty) k = vs"
    if "(k, vs) \<in> set (c_header c)" for k vs
    using fold_headers_member [OF assms that, of Map.empty] by (simp add: header_Values_def)
  then show ?thesis
    by (auto simp: Do_request_def Let_def header_Values_Set)
qed

theorem Do_request_headers_witness:
  "header_Values (rq_header (Do_request
      (client_example [(''Content-Type'', [''text/plain'']), (''X-Xyz'', [''foobar''])] None None)
      '''' [(''x'', JNum 1)])) ''Content-Type'' = [''application/json'']
   \<and> header_Values (rq_header (Do_request
      (client_example [(''Content-Type'', [''text/plain'']), (''X-Xyz'', [''foobar''])] None None)
      '''' [(''x'', JNum 1)])) ''X-Xyz'' = [''foobar'']"
  using Do_request_headers [of "client_example [(''Content-Type'', [''text/plain'']),
          (''X-Xyz'', [''foobar''])] None None" "''''" "[(''x'', JNum 1)]"]
  by (simp add: client_example_def)

text \<open>
  The claim as stated fails: with the static token \<open>t\<close>, the configured header
  \<open>Authorization: Basic abc\<close> is not attached unchanged.
\<close>

theorem Do_request_replaces_Authorization:
  "(''Authorization'', [''Basic abc'']) \<in> set (c_header
       (client_example [(''Authorization'', [''Basic abc''])] None (Some ''t'')))
   \<and> header_Values (rq_header (Do_request
       (client_example [(''Authorization'', [''Basic abc''])] None (Some ''t''))
       ''t'' [])) ''Authorization'' = [''Bearer t'']"
  by (simp add: client_example_def Do_request_def header_Add_def header_Set_def header_Values_def)

section \<open>Token expiry\<close>

lemma expiresIn90p_exact:
  assumes "0 \<le> L" and "L \<le> 10000000000"
  shows "expiresIn90p L = (9 * L) div 10 * 1000000000"
proof -
  have "0 \<le> (9 * L) div 10" using assms by simp
  moreover have "(9 * L) div 10 \<le> 9000000000" using assms by simp
  ultimately have "0 \<le> (9 * L) div 10 * 1000000000"
    and "(9 * L) div 10 * 1000000000 < 2 ^ 63" by simp_all
  then show ?thesis by (simp add: expiresIn90p_def swrap64_def)
qed

lemma expiry_before_95:
  assumes "0 < L"
  shows "(9 * L) div 10 * 1000000000 < 950000000 * (L::int)"
proof -
  have "10 * ((9 * L) div 10) \<le> 9 * L" by simp
  with assms show ?thesis by simp
qed

lemma expiry_after_50:
  assumes "3 \<le> L"
  shows "500000000 * (L::int) < (9 * L) div 10 * 1000000000"
proof -
  have "9 * L < 10 * ((9 * L) div 10) + 10"
  proof -
    have "(9 * L) mod 10 < 10" by simp
    moreover have "9 * L = 10 * ((9 * L) div 10) + (9 * L) mod 10" by simp
    ultimately show ?thesis by linarith
  qed
  with assms show ?thesis by simp
qed

text \<open>
  C5 (as the code has it). In Dynamic mode, a login at the instant \<open>t0\<close> whose response
  advertises a lifetime of \<open>L\<close> seconds (\<open>0 < L\<close>, and \<open>L\<close> at most \<open>10^10\<close> so that the
  duration fits \<open>int64\<close> nanoseconds) caches the token and arms one timer for
  \<open>\<lfloor>0.9 * L\<rfloor>\<close> whole seconds later. A second call at \<open>0.95 * L\<close> seconds after the
  login finds the cache cleared and performs exactly one new login exchange. A second
  call at \<open>0.5 * L\<close> seconds returns the cached token with no new login when \<open>3 \<le> L\<close>.
  Instants are in nanoseconds.
\<close>

theorem token_expiry:
  assumes "c_oauth c = Some oa" and "c_token c = None" and "c_timers c = []"
    and "new_request_error env (oa_URL oa) = None"
    and "send env (login_request env oa) = Inr response" and "rs_status response = 200"
    and "decode_login env (rs_body response) = Inr (tok, L)" and "tok \<noteq> ''''"
    and "0 < L" and "L \<le> 10000000000"
  shows "ensureValidToken env t0 c =
           (c\<lparr>c_token := Some tok, c_timers := [t0 + (9 * L) div 10 * 1000000000],
              c_logins := Suc (c_logins c)\<rparr>, Inr tok)
       \<and> c_logins (fst (ensureValidToken_at tie (t0 + 950000000 * L) env'
                          (fst (ensureValidToken env t0 c)))) = Suc (Suc (c_logins c))
       \<and> (3 \<le> L \<longrightarrow>
            ensureValidToken_at tie (t0 + 500000000 * L) env' (fst (ensureValidToken env t0 c))
              = (fst (ensureValidToken env t0 c), Inr tok))"
proof -
  let ?d = "(9 * L) div 10 * 1000000000"
  let ?c1 = "c\<lparr>c_token := Some tok, c_timers := [t0 + ?d], c_logins := Suc (c_logins c)\<rparr>"
  have lg: "login env oa = Inr (tok, ?d)"
    using assms by (simp add: login_def expiresIn90p_exact)
  have first: "ensureValidToken env t0 c = (?c1, Inr tok)"
    using assms(1-3) lg by (simp add: ensureValidToken_def)
  have due: "timer_due tie (t0 + 950000000 * L) (t0 + ?d)"
    using expiry_before_95 [OF assms(9)] by (simp add: timer_due_def)
  have fired: "fire_timers tie (t0 + 950000000 * L) ?c1 = ?c1\<lparr>c_token := None, c_timers := []\<rparr>"
    using due by (simp add: fire_timers_def)
  have second: "c_logins (fst (ensureValidToken_at tie (t0 + 950000000 * L) env' ?c1))
                  = Suc (Suc (c_logins c))"
    using assms(1) by (simp add: ensureValidToken_at_def fired ensureValidToken_def
        split: sum.splits prod.splits)
  have reuse: "ensureValidToken_at tie (t0 + 500000000 * L) env' ?c1 = (?c1, Inr tok)" if "3 \<le> L"
  proof -
    have "\<not> timer_due tie (t0 + 500000000 * L) (t0 + ?d)"
      using expiry_after_50 [OF that] by (simp add: timer_due_def)
    then have "fire_timers tie (t0 + 500000000 * L) ?c1 = ?c1"
      by (simp add: fire_timers_def)
    then show ?thesis
      using assms(1,8) by (simp add: ensureValidToken_at_def ensureValidToken_def)
  qed
  show ?thesis using first second reuse by simp
qed

theorem token_expiry_witness:
  "ensureValidToken (env_example 200 ''{}'' 3600) 0 (client_example [] (Some oa_example) None)
     = ((client_example [] (Some oa_example) None)
           \<lparr>c_token := Some ''tok'', c_timers := [3240000000000], c_logins := 1\<rparr>, Inr ''tok'')
   \<and> c_logins (fst (ensureValidToken_at True 3420000000000 (env_example 500 ''{}'' 3600)
       (fst (ensureValidToken (env_example 200 ''{}'' 3600) 0
               (client_example [] (Some oa_example) None))))) = 2
   \<and> ensureValidToken_at True 1800000000000 (env_example 500 ''{}'' 3600)
       (fst (ensureValidToken (env_example 200 ''{}'' 3600) 0
               (client_example [] (Some oa_example) None)))
     = (fst (ensureValidToken (env_example 200 ''{}'' 3600) 0
               (client_example [] (Some oa_example) None)), Inr ''tok'')"
proof -
  let ?c = "client_example [] (Some oa_example) None"
  let ?env = "env_example 200 ''{}'' 3600"
  have a: "c_oauth ?c = Some oa_example" "c_token ?c = None" "c_timers ?c = []"
    by (simp_all add: client_example_def)
  have b: "new_request_error ?env (oa_URL oa_example) = None"
    "send ?env (login_request ?env oa_example) = Inr \<lparr> rs_status = 200, rs_body = ''{}'' \<rparr>"
    "rs_status \<lparr> rs_status = 200, rs_body = ''{}'' \<rparr> = 200"
    "decode_login ?env (rs_body \<lparr> rs_status = 200, rs_body = ''{}'' \<rparr>) = Inr (''tok'', 3600)"
    by (simp_all add: env_example_def)
  have c: "''tok'' \<noteq> ''''" "(0::int) < 3600" "(3600::int) \<le> 10000000000" by simp_all
  note t = token_expiry [OF a b c, of 0 True "env_example 500 ''{}'' 3600"]
  have f1: "ensureValidToken ?env 0 ?c
     = (?c\<lparr>c_token := Some ''tok'', c_timers := [3240000000000], c_logins := 1\<rparr>, Inr ''tok'')"
    using t [THEN conjunct1] by (simp add: client_example_def)
  have f2: "c_logins (fst (ensureValidToken_at True 3420000000000 (env_example 500 ''{}'' 3600)
       (fst (ensureValidToken ?env 0 ?c)))) = 2"
    using t [THEN conjunct2, THEN conjunct1] by (simp add: client_example_def)
  have f3: "ensureValidToken_at True 1800000000000 (env_example 500 ''{}'' 3600)
       (fst (ensureValidToken ?env 0 ?c)) = (fst (ensureValidToken ?env 0 ?c), Inr ''tok'')"
    using t [THEN conjunct2, THEN conjunct2] by simp
  show ?thesis by (intro conjI f1 f2 f3)
qed

text \<open>
  The claim as stated fails for a lifetime of one second: the timer is armed for
  \<open>\<lfloor>0.9\<rfloor> = 0\<close> seconds, so a second call half a second after the login logs in
  again.
\<close>

theorem short_lifetime_logs_in_again:
  "ensureValidToken (env_example 200 ''{}'' 1) 0 (client_example [] (Some oa_example) None)
     = ((client_example [] (Some oa_example) None)
           \<lparr>c_token := Some ''tok'', c_timers := [0], c_logins := 1\<rparr>, Inr ''tok'')
   \<and> c_logins (fst (ensureValidToken_at False 500000000 (env_example 200 ''{}'' 1)
       (fst (ensureValidToken (env_example 200 ''{}'' 1) 0
               (client_example [] (Some oa_example) None))))) = 2"
  by (simp add: client_example_def env_example_def ensureValidToken_def ensureValidToken_at_def
      login_def expiresIn90p_def swrap64_def fire_timers_def timer_due_def)

section \<open>Runs of the dispatch loop\<close>

lemmas run_simps = step_def main_step_def worker_step_def set_pc_def RunWith_init_def
  world_example_def PrintStats_def

lemma exec_invariant:
  assumes "exec w es s0 = Some s" and "P s0"
    and "\<And>s e s'. P s \<Longrightarrow> step w e s = Some s' \<Longrightarrow> P s'"
  shows "P s"
  using assms(1,2)
proof (induction es arbitrary: s0)
  case Nil
  then show ?case by simp
next
  case (Cons e es)
  then obtain s1 where s1: "step w e s0 = Some s1" and rest: "exec w es s1 = Some s"
    by (auto split: option.splits)
  from assms(3) [OF Cons.prems(2) s1] have "P s1" .
  from Cons.IH [OF rest this] show ?case .
qed

lemma write_step_cases:
  "write_step w st r s =
     (case st of
        E_AddError \<Rightarrow> (s\<lparr>stats := AddError (stats s)\<rparr>, Some E_AddProcessed, None)
      | E_AddProcessed \<Rightarrow> (s\<lparr>stats := AddProcessed (stats s)\<rparr>, Some E_Encode, None)
      | E_Encode \<Rightarrow>
          (case encode_error w r of
             Some err \<Rightarrow> (s, None, Some err)
           | None \<Rightarrow> (s\<lparr>errOutput := errOutput s @ [r]\<rparr>, None, None))
      | R_AddProcessed \<Rightarrow> (s\<lparr>stats := AddProcessed (stats s)\<rparr>, Some R_Encode, None)
      | R_Encode \<Rightarrow>
          (case encode_error w r of
             Some err \<Rightarrow> (s, None, Some err)
           | None \<Rightarrow> (s\<lparr>okOutput := okOutput s @ [r]\<rparr>, None, None)))"
  by (cases st) simp_all

lemma nth_le_sum_list_map:
  "i < length xs \<Longrightarrow> g (xs ! i) \<le> sum_list (map g xs :: nat list)"
proof (induction xs arbitrary: i)
  case Nil
  then show ?case by simp
next
  case (Cons a xs)
  then show ?case by (cases i) (auto intro: trans_le_add2)
qed

lemma sum_list_map_update:
  "i < length xs \<Longrightarrow>
   sum_list (map g (xs[i := x])) = sum_list (map g xs) + (g x :: nat) - g (xs ! i)"
proof (induction xs arbitrary: i)
  case Nil
  then show ?case by simp
next
  case (Cons a xs)
  show ?case
  proof (cases i)
    case 0
    then show ?thesis by simp
  next
    case (Suc j)
    with Cons.prems have j: "j < length xs" by simp
    from nth_le_sum_list_map [OF j, of g] Cons.IH [OF j] Suc show ?thesis by simp
  qed
qed

lemma sum_list_zero_all:
  "sum_list (map g xs) = (0::nat) \<Longrightarrow> x \<in> set xs \<Longrightarrow> g x = 0"
  by (induction xs) auto

text \<open>The wait group counts the goroutines that have not finished.\<close>

lemma wg_counts_running_step:
  assumes "wg s = sum_list (map running (workers s))" and "step w e s = Some s'"
  shows "wg s' = sum_list (map running (workers s'))"
proof (cases e)
  case EvMain
  with assms show ?thesis
    by (auto simp: step_def main_step_def write_step_cases running_def
        split: mpc.splits list.splits sum.splits wstage.splits option.splits if_splits)
next
  case (EvWorker i)
  with assms have len: "i < length (workers s)"
    by (auto simp: step_def worker_step_def split: if_splits)
  from assms EvWorker len nth_le_sum_list_map [OF len, of running] show ?thesis
    by (auto simp: step_def worker_step_def set_pc_def write_step_cases running_def Let_def
        sum_list_map_update
        split: wpc.splits prod.splits wstage.splits option.splits if_splits)
next
  case EvCancel
  with assms show ?thesis by (auto simp: step_def split: if_splits)
qed

lemma return_none_step:
  assumes "main s = Return None \<longrightarrow> wg s = 0" and "step w e s = Some s'"
  shows "main s' = Return None \<longrightarrow> wg s' = 0"
proof (cases e)
  case EvMain
  with assms show ?thesis
    by (auto simp: step_def main_step_def write_step_cases
        split: mpc.splits list.splits sum.splits wstage.splits option.splits if_splits)
next
  case (EvWorker i)
  with assms show ?thesis
    by (auto simp: step_def worker_step_def set_pc_def write_step_cases Let_def
        split: wpc.splits prod.splits wstage.splits option.splits if_splits)
next
  case EvCancel
  with assms show ?thesis by (auto simp: step_def split: if_splits)
qed

text \<open>\<open>RunWith\<close> returns \<open>nil\<close> only after every goroutine it launched has finished.\<close>

lemma drained:
  assumes "exec w es (RunWith_init inp st) = Some s" and "main s = Return None"
  shows "list_all (\<lambda>wk. w_pc wk = WExit) (workers s)"
proof -
  have a: "wg s = sum_list (map running (workers s))"
  proof (rule exec_invariant [OF assms(1)])
    show "wg (RunWith_init inp st) = sum_list (map running (workers (RunWith_init inp st)))"
      by (simp add: RunWith_init_def)
  qed (rule wg_counts_running_step)
  have b: "main s = Return None \<longrightarrow> wg s = 0"
  proof (rule exec_invariant [OF assms(1)])
    show "main (RunWith_init inp st) = Return None \<longrightarrow> wg (RunWith_init inp st) = 0"
      by (simp add: RunWith_init_def)
  qed (rule return_none_step)
  from a b assms(2) have "sum_list (map running (workers s)) = 0" by simp
  then have "running wk = 0" if "wk \<in> set (workers s)" for wk
    using that by (rule sum_list_zero_all)
  then have "w_pc wk = WExit" if "wk \<in> set (workers s)" for wk
    using that by (fastforce simp: running_def split: if_splits)
  then show ?thesis by (simp add: list_all_iff)
qed

lemma in_progress_drained:
  assumes "list_all (\<lambda>wk. w_pc wk = WExit) (workers s)" and "main s = Return None"
  shows "in_progress f s = 0"
proof -
  have "of_stage f (worker_stage (w_pc wk)) = 0" if "wk \<in> set (workers s)" for wk
    using that assms(1) by (auto simp: list_all_iff of_stage_def)
  then have "sum_list (map (\<lambda>wk. of_stage f (worker_stage (w_pc wk))) (workers s)) = 0"
    by (simp add: sum_list_eq_0_iff)
  with assms(2) show ?thesis by (simp add: in_progress_def of_stage_def)
qed

section \<open>The counters\<close>

lemma counted_step:
  assumes "returned_error (main s) \<or> counted s" and "step w e s = Some s'"
  shows "returned_error (main s') \<or> counted s'"
proof (cases e)
  case EvMain
  with assms show ?thesis
    by (auto simp: step_def main_step_def write_step_cases counted_def in_progress_def
        of_stage_def
        split: mpc.splits list.splits sum.splits wstage.splits option.splits if_splits)
next
  case (EvWorker i)
  with assms have len: "i < length (workers s)"
    by (auto simp: step_def worker_step_def split: if_splits)
  from assms(2) EvWorker have nr: "\<not> returned (main s)"
    by (auto simp: step_def split: if_splits)
  then have "\<not> returned_error (main s)" by (cases "main s") auto
  with assms(1) have c: "counted s" by simp
  let ?gp = "\<lambda>wk. of_stage stage_processed (worker_stage (w_pc wk))"
  let ?ge = "\<lambda>wk. of_stage stage_errors (worker_stage (w_pc wk))"
  from c assms(2) EvWorker len nth_le_sum_list_map [OF len, of ?gp]
    nth_le_sum_list_map [OF len, of ?ge]
  show ?thesis
    by (auto simp: step_def worker_step_def set_pc_def write_step_cases counted_def
        in_progress_def of_stage_def Let_def sum_list_map_update
        split: wpc.splits prod.splits wstage.splits option.splits if_splits)
next
  case EvCancel
  with assms show ?thesis
    by (auto simp: step_def counted_def in_progress_def split: if_splits)
qed

lemma stats_step:
  assumes "step w e s = Some s'"
  shows "stats s' = stats s \<or> stats s' = AddError (stats s) \<or> stats s' = AddProcessed (stats s)"
proof (cases e)
  case EvMain
  with assms show ?thesis
    by (auto simp: step_def main_step_def write_step_cases
        split: mpc.splits list.splits sum.splits wstage.splits option.splits if_splits)
next
  case (EvWorker i)
  with assms show ?thesis
    by (auto simp: step_def worker_step_def set_pc_def write_step_cases Let_def
        split: wpc.splits prod.splits wstage.splits option.splits if_splits)
next
  case EvCancel
  with assms show ?thesis by (auto simp: step_def split: if_splits)
qed

lemma Values_mono:
  "fst (Values st) \<le> fst (Values (AddError st))" "snd (Values st) \<le> snd (Values (AddError st))"
  "fst (Values st) \<le> fst (Values (AddProcessed st))"
  "snd (Values st) \<le> snd (Values (AddProcessed st))"
  by (cases st; simp)+

lemma between_step:
  assumes "snd (Values (stats s)) \<le> fst (Values (stats s)) + in_progress stage_between s"
    and "step w e s = Some s'"
  shows "snd (Values (stats s')) \<le> fst (Values (stats s')) + in_progress stage_between s'"
proof (cases e)
  case EvMain
  with assms show ?thesis
    by (cases "stats s")
       (auto simp: step_def main_step_def write_step_cases in_progress_def of_stage_def
        split: mpc.splits list.splits sum.splits wstage.splits option.splits if_splits)
next
  case (EvWorker i)
  with assms have len: "i < length (workers s)"
    by (auto simp: step_def worker_step_def split: if_splits)
  let ?g = "\<lambda>wk. of_stage stage_between (worker_stage (w_pc wk))"
  from assms EvWorker len nth_le_sum_list_map [OF len, of ?g]
  show ?thesis
    by (cases "stats s")
       (auto simp: step_def worker_step_def set_pc_def write_step_cases
        in_progress_def of_stage_def Let_def sum_list_map_update
        split: wpc.splits prod.splits wstage.splits option.splits if_splits)
next
  case EvCancel
  with assms show ?thesis
    by (auto simp: step_def in_progress_def split: if_splits)
qed

text \<open>
  C8 (as the code has it). In every state of a run with counting enabled: if the run has
  completed, \<open>processed\<close> is the number of success records plus the number of error
  records and \<open>errors\<close> is the number of error records; no action makes a counter
  smaller; and \<open>errors\<close> exceeds \<open>processed\<close> by at most the number of \<open>writeError\<close>
  calls that stand between their two increments (\<open>writeError\<close> increments \<open>errors\<close>
  first).
\<close>

theorem counters_of_a_run:
  assumes "exec w es (RunWith_init inp (PrintStats True)) = Some s"
  shows "(main s = Return None \<longrightarrow>
            Values (stats s) = (length (okOutput s) + length (errOutput s), length (errOutput s)))
       \<and> (\<forall>e s'. step w e s = Some s' \<longrightarrow>
            fst (Values (stats s)) \<le> fst (Values (stats s')) \<and>
            snd (Values (stats s)) \<le> snd (Values (stats s')))
       \<and> snd (Values (stats s)) \<le> fst (Values (stats s)) + in_progress stage_between s"
proof -
  have j: "returned_error (main s) \<or> counted s"
  proof (rule exec_invariant [OF assms])
    show "returned_error (main (RunWith_init inp (PrintStats True)))
          \<or> counted (RunWith_init inp (PrintStats True))"
      by (simp add: RunWith_init_def PrintStats_def counted_def in_progress_def of_stage_def)
  qed (rule counted_step)
  have k: "snd (Values (stats s)) \<le> fst (Values (stats s)) + in_progress stage_between s"
  proof (rule exec_invariant [OF assms])
    show "snd (Values (stats (RunWith_init inp (PrintStats True))))
          \<le> fst (Values (stats (RunWith_init inp (PrintStats True))))
            + in_progress stage_between (RunWith_init inp (PrintStats True))"
      by (simp add: RunWith_init_def PrintStats_def)
  qed (rule between_step)
  have fin: "Values (stats s) = (length (okOutput s) + length (errOutput s), length (errOutput s))"
    if r: "main s = Return None"
  proof -
    from j r have "counted s" by simp
    moreover have "in_progress f s = 0" for f
      using in_progress_drained [OF drained [OF assms r] r] .
    ultimately show ?thesis by (simp add: counted_def)
  qed
  have mono: "fst (Values (stats s)) \<le> fst (Values (stats s')) \<and>
              snd (Values (stats s)) \<le> snd (Values (stats s'))"
    if "step w e s = Some s'" for e s'
    using stats_step [OF that] Values_mono [of "stats s"] by auto
  from fin mono k show ?thesis by blast
qed

theorem counters_of_a_run_witness:
  "map_option (\<lambda>s. (main s, Values (stats s), length (okOutput s), length (errOutput s)))
     (exec (world_example 1)
        [EvMain, EvMain, EvMain, EvMain, EvMain, EvMain, EvMain,
         EvWorker 0, EvWorker 0, EvWorker 0, EvWorker 0, EvWorker 0, EvMain, EvMain,
         EvWorker 1, EvWorker 1, EvWorker 1, EvWorker 1, EvWorker 1, EvMain, EvMain]
        (RunWith_init [Inr [(''x'', JNum 1)], Inl bad_record] (PrintStats True)))
   = Some (Return None, (3, 1), 2, 1)"
proof -
  obtain s where e: "exec (world_example 1)
        [EvMain, EvMain, EvMain, EvMain, EvMain, EvMain, EvMain,
         EvWorker 0, EvWorker 0, EvWorker 0, EvWorker 0, EvWorker 0, EvMain, EvMain,
         EvWorker 1, EvWorker 1, EvWorker 1, EvWorker 1, EvWorker 1, EvMain, EvMain]
        (RunWith_init [Inr [(''x'', JNum 1)], Inl bad_record] (PrintStats True)) = Some s"
    and m: "main s = Return None"
    and l: "length (okOutput s) = 2" "length (errOutput s) = 1"
    by (simp add: run_simps)
  from counters_of_a_run [OF e] m l have "Values (stats s) = (3, 1)" by simp
  with e m l show ?thesis by simp
qed

text \<open>
  The claim as stated fails: after the first action of the \<open>writeError\<close> for a record
  that did not decode, \<open>errors\<close> is 1 and \<open>processed\<close> is 0.
\<close>

theorem errors_ahead_of_processed:
  "map_option (\<lambda>s. Values (stats s))
     (exec (world_example 1) [EvMain, EvMain] (RunWith_init [Inl bad_record] (PrintStats True)))
   = Some (0, 1)"
  by (simp add: run_simps)

section \<open>Read failures\<close>

text \<open>
  C2, at an input of one record that does not decode. Six actions of the loop after the
  start, the failure record of row 1 is written, one permit is held and a goroutine for
  row 1 stands before its call with the empty variable set: the row has requested
  admission, consumed a permit and been dispatched.
\<close>

theorem read_failure_is_dispatched:
  "map_option (\<lambda>s. (errOutput s, cur s, workers s))
     (exec (world_example 1) [EvMain, EvMain, EvMain, EvMain, EvMain, EvMain]
        (RunWith_init [Inl bad_record] SilentStats))
   = Some ([\<lparr>Row = 1, Input = None, Output = JNull, Error = Some bad_record\<rparr>], 1,
           [\<lparr>w_row = 1, w_variables = [], w_pc = WCall\<rparr>])"
  by (simp add: run_simps)

section \<open>Cancellation while waiting for a permit\<close>

lemma worker_step_ctx:
  "step w (EvWorker i) (t\<lparr>ctx_done := True\<rparr>)
     = map_option (\<lambda>t'. t'\<lparr>ctx_done := True\<rparr>) (step w (EvWorker i) t)"
  by (auto simp: step_def worker_step_def set_pc_def write_step_cases Let_def
      split: wpc.splits prod.splits wstage.splits option.splits)

text \<open>
  C3 (as the code has it). When the loop stands in \<open>Acquire\<close> with no permit free and the
  context is done, \<open>Acquire\<close> fails with the cancellation and takes no permit. The row is
  not dropped silently: the next three actions of the loop count it in both counters
  and write one record for it, with no input, no output and the cancellation as its
  error, to the error stream; up to there nothing else has changed (no permit taken, no
  goroutine launched, no record read). A goroutine that is already launched never sees
  the cancellation: each of its actions is possible, with the same effect, whether the
  context is done or not.
\<close>

theorem cancelled_acquire:
  assumes "main s = Acquire variables" and "ctx_done s" and "connections w - cur s < 1"
    and "\<not> panicked s"
    and "encode_error w \<lparr>Row = row s, Input = None, Output = JNull, Error = Some Canceled\<rparr> = None"
  shows "step w EvMain s =
           Some (s\<lparr>main := AcquireError E_AddError
                    \<lparr>Row = row s, Input = None, Output = JNull, Error = Some Canceled\<rparr>
                    variables\<rparr>)
       \<and> (\<exists>s'. exec w [EvMain, EvMain, EvMain, EvMain] s = Some s' \<and>
              errOutput s' = errOutput s @
                [\<lparr>Row = row s, Input = None, Output = JNull, Error = Some Canceled\<rparr>] \<and>
              stats s' = AddProcessed (AddError (stats s)) \<and>
              okOutput s' = okOutput s \<and> cur s' = cur s \<and> wg s' = wg s \<and>
              workers s' = workers s \<and> input s' = input s \<and> row s' = row s)
       \<and> (\<forall>i t. step w (EvWorker i) (t\<lparr>ctx_done := True\<rparr>)
              = map_option (\<lambda>t'. t'\<lparr>ctx_done := True\<rparr>) (step w (EvWorker i) t))"
proof -
  have a: "step w EvMain s =
           Some (s\<lparr>main := AcquireError E_AddError
                    \<lparr>Row = row s, Input = None, Output = JNull, Error = Some Canceled\<rparr>
                    variables\<rparr>)"
    using assms by (simp add: step_def main_step_def)
  have b: "\<exists>s'. exec w [EvMain, EvMain, EvMain, EvMain] s = Some s' \<and>
              errOutput s' = errOutput s @
                [\<lparr>Row = row s, Input = None, Output = JNull, Error = Some Canceled\<rparr>] \<and>
              stats s' = AddProcessed (AddError (stats s)) \<and>
              okOutput s' = okOutput s \<and> cur s' = cur s \<and> wg s' = wg s \<and>
              workers s' = workers s \<and> input s' = input s \<and> row s' = row s"
    using assms by (simp add: step_def main_step_def)
  from a b worker_step_ctx show ?thesis by blast
qed

theorem cancelled_acquire_witness:
  "step (world_example 1) EvMain blocked_example =
     Some (blocked_example\<lparr>main := AcquireError E_AddError
              \<lparr>Row = 2, Input = None, Output = JNull, Error = Some Canceled\<rparr> [(''x'', JNum 2)]\<rparr>)
   \<and> (\<exists>s'. exec (world_example 1) [EvMain, EvMain, EvMain, EvMain] blocked_example = Some s' \<and>
         errOutput s' = [\<lparr>Row = 2, Input = None, Output = JNull, Error = Some Canceled\<rparr>] \<and>
         okOutput s' = [] \<and> cur s' = 1)"
proof -
  have h: "main blocked_example = Acquire [(''x'', JNum 2)]" "ctx_done blocked_example"
    "connections (world_example 1) - cur blocked_example < 1" "\<not> panicked blocked_example"
    "encode_error (world_example 1)
       \<lparr>Row = row blocked_example, Input = None, Output = JNull, Error = Some Canceled\<rparr> = None"
    by (simp_all add: blocked_example_def world_example_def)
  note t = cancelled_acquire [OF h]
  have r: "row blocked_example = 2" "errOutput blocked_example = []"
    "okOutput blocked_example = []" "cur blocked_example = 1"
    by (simp_all add: blocked_example_def)
  from t [THEN conjunct1] t [THEN conjunct2, THEN conjunct1] show ?thesis
    unfolding r by auto
qed

text \<open>
  The claim as stated fails. With one permit and two records, the loop blocks in
  \<open>Acquire\<close> for row 2 (a fifth action of the loop is not possible); after the
  cancellation a record for row 2 is on the error stream, a goroutine for row 2 is
  launched, and the loop is back at \<open>Decode\<close>. With a third record, rows 2 and 3 are
  both launched without a permit; when both have released one, the program panics
  while the call of row 1, admitted before the cancellation, has not returned.
\<close>

theorem cancelled_row_is_recorded_and_dispatched:
  "exec (world_example 1) [EvMain, EvMain, EvMain, EvMain, EvMain]
        (RunWith_init [Inr [(''x'', JNum 1)], Inr [(''x'', JNum 2)]] SilentStats) = None
   \<and> map_option (\<lambda>s. (errOutput s, map w_row (workers s), main s))
     (exec (world_example 1)
        [EvMain, EvMain, EvMain, EvMain, EvCancel, EvMain, EvMain, EvMain, EvMain, EvMain]
        (RunWith_init [Inr [(''x'', JNum 1)], Inr [(''x'', JNum 2)]] SilentStats))
   = Some ([\<lparr>Row = 2, Input = None, Output = JNull, Error = Some Canceled\<rparr>], [1, 2], Decode)
   \<and> map_option (\<lambda>s. (panicked s, w_row (workers s ! 0), w_pc (workers s ! 0),
                       map Row (errOutput s), map Row (okOutput s)))
     (exec (world_example 1)
        [EvMain, EvMain, EvMain, EvMain, EvCancel, EvMain, EvMain, EvMain, EvMain, EvMain,
         EvMain, EvMain, EvMain, EvMain, EvMain, EvMain,
         EvWorker 1, EvWorker 1, EvWorker 1, EvWorker 1,
         EvWorker 2, EvWorker 2, EvWorker 2, EvWorker 2]
        (RunWith_init [Inr [(''x'', JNum 1)], Inr [(''x'', JNum 2)], Inr [(''x'', JNum 3)]]
           SilentStats))
   = Some (True, 1, WCall, [2, 3], [2, 3])"
  by (simp add: run_simps)

section \<open>A concurrency limit that is not positive\<close>

lemma nonpositive_step:
  assumes "connections w \<le> 0"
    and "cur s = 0 \<and>
         main_stage (main s) \<noteq> Some R_AddProcessed \<and> main_stage (main s) \<noteq> Some R_Encode \<and>
         (\<not> ctx_done s \<longrightarrow> workers s = [] \<and> okOutput s = [] \<and>
           (\<forall>st r v. main s \<noteq> AcquireError st r v) \<and> (\<forall>v. main s \<noteq> Go v))"
    and "step w e s = Some s'"
  shows "cur s' = 0 \<and>
         main_stage (main s') \<noteq> Some R_AddProcessed \<and> main_stage (main s') \<noteq> Some R_Encode \<and>
         (\<not> ctx_done s' \<longrightarrow> workers s' = [] \<and> okOutput s' = [] \<and>
           (\<forall>st r v. main s' \<noteq> AcquireError st r v) \<and> (\<forall>v. main s' \<noteq> Go v))"
proof (cases e)
  case EvMain
  with assms show ?thesis
    by (auto simp: step_def main_step_def write_step_cases
        split: mpc.splits list.splits sum.splits wstage.splits option.splits if_splits)
next
  case (EvWorker i)
  with assms show ?thesis
    by (auto simp: step_def worker_step_def set_pc_def write_step_cases Let_def
        split: wpc.splits prod.splits wstage.splits option.splits if_splits)
next
  case EvCancel
  with assms show ?thesis by (auto simp: step_def split: if_splits)
qed

lemma return_error_step:
  assumes "\<forall>err. main s = Return (Some err) \<longrightarrow> (\<exists>r. encode_error w r = Some err)"
    and "step w e s = Some s'"
  shows "\<forall>err. main s' = Return (Some err) \<longrightarrow> (\<exists>r. encode_error w r = Some err)"
proof (cases e)
  case EvMain
  with assms show ?thesis
    by (auto simp: step_def main_step_def write_step_cases
        split: mpc.splits list.splits sum.splits wstage.splits option.splits if_splits)
next
  case (EvWorker i)
  with assms show ?thesis
    by (auto simp: step_def worker_step_def set_pc_def write_step_cases Let_def
        split: wpc.splits prod.splits wstage.splits option.splits if_splits)
next
  case EvCancel
  with assms show ?thesis by (auto simp: step_def split: if_splits)
qed

text \<open>
  C4 (as the code has it). With a concurrency limit of zero or less no configuration
  error is raised: \<open>Run\<close> gets to \<open>RunWith\<close> exactly as it does with the limit 10, and the
  only error \<open>RunWith\<close> returns is one of an \<open>Encode\<close>. No permit is ever granted, and
  while the context is not cancelled no goroutine is launched, nothing is written to
  the success stream and the loop cannot get past an \<open>Acquire\<close>. The first record is
  read before the limit plays any role: on an empty input the run returns \<open>nil\<close> with
  nothing written; a first record that decodes is read as row 1 and the loop then
  blocks in its \<open>Acquire\<close>; a first record that does not decode is read as row 1, counted
  in both counters and recorded on the error stream.
\<close>

theorem nonpositive_connections:
  assumes "cfg_Connections config \<le> 0" and "Run fs config = Inr (c, n, s0)"
    and "connections w = n"
  shows "Run fs (config\<lparr>cfg_Connections := 10\<rparr>) = Inr (c, 10, s0)
       \<and> (\<forall>es s. exec w es s0 = Some s \<longrightarrow>
            cur s = 0 \<and>
            (\<forall>err. main s = Return (Some err) \<longrightarrow> (\<exists>r. encode_error w r = Some err)) \<and>
            (\<not> ctx_done s \<longrightarrow>
               workers s = [] \<and> okOutput s = [] \<and>
               (\<forall>variables. main s = Acquire variables \<longrightarrow> step w EvMain s = None)))
       \<and> (input s0 = [] \<longrightarrow>
            (\<exists>s2. exec w [EvMain, EvMain] s0 = Some s2 \<and> main s2 = Return None \<and>
                  errOutput s2 = [] \<and> okOutput s2 = []))
       \<and> (\<forall>variables rest. input s0 = Inr variables # rest \<longrightarrow>
            (\<exists>s1. exec w [EvMain] s0 = Some s1 \<and> row s1 = 1 \<and> input s1 = rest \<and>
                  main s1 = Acquire variables \<and> step w EvMain s1 = None))
       \<and> (\<forall>err rest. input s0 = Inl err # rest \<and>
              encode_error w \<lparr>Row = 1, Input = None, Output = JNull, Error = Some err\<rparr> = None \<longrightarrow>
            (\<exists>s4. exec w [EvMain, EvMain, EvMain, EvMain] s0 = Some s4 \<and> row s4 = 1 \<and>
                  input s4 = rest \<and>
                  errOutput s4 = [\<lparr>Row = 1, Input = None, Output = JNull, Error = Some err\<rparr>] \<and>
                  stats s4 = AddProcessed (AddError (stats s0))))"
proof -
  from assms(2) obtain inp where n: "n = cfg_Connections config"
    and s0: "s0 = RunWith_init inp (PrintStats (cfg_Verbose config))"
    by (auto simp: Run_def split: sum.splits option.splits)
  from assms(1,3) n have conn: "connections w \<le> 0" by simp
  let ?st = "PrintStats (cfg_Verbose config)"
  from assms(2) have z: "Run fs (config\<lparr>cfg_Connections := 10\<rparr>) = Inr (c, 10, s0)"
    by (auto simp: Run_def NewClient_def split: sum.splits option.splits if_splits)
  have reach: "cur s = 0 \<and>
            (\<forall>err. main s = Return (Some err) \<longrightarrow> (\<exists>r. encode_error w r = Some err)) \<and>
            (\<not> ctx_done s \<longrightarrow>
               workers s = [] \<and> okOutput s = [] \<and>
               (\<forall>variables. main s = Acquire variables \<longrightarrow> step w EvMain s = None))"
    if run0: "exec w es s0 = Some s" for es s
  proof -
    from run0 s0 have run: "exec w es (RunWith_init inp ?st) = Some s" by simp
    have a: "\<forall>err. main s = Return (Some err) \<longrightarrow> (\<exists>r. encode_error w r = Some err)"
    proof (rule exec_invariant [OF run])
      show "\<forall>err. main (RunWith_init inp ?st) = Return (Some err) \<longrightarrow>
              (\<exists>r. encode_error w r = Some err)"
        by (simp add: RunWith_init_def)
    qed (rule return_error_step)
    have b: "cur s = 0 \<and>
         main_stage (main s) \<noteq> Some R_AddProcessed \<and> main_stage (main s) \<noteq> Some R_Encode \<and>
         (\<not> ctx_done s \<longrightarrow> workers s = [] \<and> okOutput s = [] \<and>
           (\<forall>st r v. main s \<noteq> AcquireError st r v) \<and> (\<forall>v. main s \<noteq> Go v))"
    proof (rule exec_invariant [OF run])
      show "cur (RunWith_init inp ?st) = 0 \<and>
          main_stage (main (RunWith_init inp ?st)) \<noteq> Some R_AddProcessed \<and>
          main_stage (main (RunWith_init inp ?st)) \<noteq> Some R_Encode \<and>
          (\<not> ctx_done (RunWith_init inp ?st) \<longrightarrow>
             workers (RunWith_init inp ?st) = [] \<and> okOutput (RunWith_init inp ?st) = [] \<and>
             (\<forall>st' r v. main (RunWith_init inp ?st) \<noteq> AcquireError st' r v) \<and>
             (\<forall>v. main (RunWith_init inp ?st) \<noteq> Go v))"
        by (simp add: RunWith_init_def)
    qed (rule nonpositive_step [OF conn])
    have c: "step w EvMain s = None"
      if "\<not> ctx_done s" and "main s = Acquire variables" for variables
      using that b conn by (simp add: step_def main_step_def)
    from a b c show ?thesis by blast
  qed
  have e0: "\<exists>s2. exec w [EvMain, EvMain] s0 = Some s2 \<and> main s2 = Return None \<and>
                  errOutput s2 = [] \<and> okOutput s2 = []" if "input s0 = []"
    using that s0 by (simp add: step_def main_step_def RunWith_init_def)
  have e1: "\<exists>s1. exec w [EvMain] s0 = Some s1 \<and> row s1 = 1 \<and> input s1 = rest \<and>
                  main s1 = Acquire variables \<and> step w EvMain s1 = None"
    if "input s0 = Inr variables # rest" for variables rest
    using that s0 conn by (simp add: step_def main_step_def RunWith_init_def)
  have e4: "\<exists>s4. exec w [EvMain, EvMain, EvMain, EvMain] s0 = Some s4 \<and> row s4 = 1 \<and>
                  input s4 = rest \<and>
                  errOutput s4 = [\<lparr>Row = 1, Input = None, Output = JNull, Error = Some err\<rparr>] \<and>
                  stats s4 = AddProcessed (AddError (stats s0))"
    if "input s0 = Inl err # rest"
      and "encode_error w \<lparr>Row = 1, Input = None, Output = JNull, Error = Some err\<rparr> = None"
    for err rest
    using that s0 by (simp add: step_def main_step_def RunWith_init_def)
  from z reach e0 e1 e4 show ?thesis by blast
qed

theorem nonpositive_connections_witness:
  "\<exists>c s0 s. Run files_example (config_example 0) = Inr (c, 0, s0)
       \<and> Run files_example ((config_example 0)\<lparr>cfg_Connections := 10\<rparr>) = Inr (c, 10, s0)
       \<and> exec (world_example 0) [EvMain, EvMain, EvMain, EvMain] s0 = Some s
       \<and> row s = 1
       \<and> errOutput s = [\<lparr>Row = 1, Input = None, Output = JNull, Error = Some bad_record\<rparr>]
       \<and> workers s = [] \<and> okOutput s = [] \<and> cur s = 0"
proof -
  obtain c s0 where r: "Run files_example (config_example 0) = Inr (c, 0, s0)"
    and i: "input s0 = Inl bad_record # [Inr [(''x'', JNum 1)]]"
    by (simp add: Run_def readFile_def openInput_def openOutput_def NewClient_def
        files_example_def config_example_def PrintStats_def RunWith_init_def)
  have h: "cfg_Connections (config_example 0) \<le> 0" "connections (world_example 0) = 0"
    "encode_error (world_example 0)
       \<lparr>Row = 1, Input = None, Output = JNull, Error = Some bad_record\<rparr> = None"
    by (simp_all add: config_example_def world_example_def)
  note t = nonpositive_connections [OF h(1) r h(2)]
  from t i h(3) obtain s where e: "exec (world_example 0) [EvMain, EvMain, EvMain, EvMain] s0 = Some s"
    and f: "row s = 1"
      "errOutput s = [\<lparr>Row = 1, Input = None, Output = JNull, Error = Some bad_record\<rparr>]"
    by blast
  from e have d: "\<not> ctx_done s"
    using r by (auto simp: Run_def readFile_def openInput_def openOutput_def NewClient_def
        files_example_def config_example_def PrintStats_def run_simps
        split: option.splits if_splits)
  from t e d have "workers s = [] \<and> okOutput s = [] \<and> cur s = 0" by blast
  with t r e f show ?thesis by blast
qed

text \<open>
  The claim as stated fails. With a limit of 0, \<open>Run\<close> starts \<open>RunWith\<close>; a record that
  does not decode is read as row 1 and recorded on the error stream.
\<close>

theorem zero_connections_reads_and_records:
  "(case Run files_example (config_example 0) of
      Inl err \<Rightarrow> None
    | Inr (c, n, s0) \<Rightarrow>
        map_option (\<lambda>s. (n, row s, errOutput s, main s))
          (exec (world_example n) [EvMain, EvMain, EvMain, EvMain] s0))
   = Some (0, 1, [\<lparr>Row = 1, Input = None, Output = JNull, Error = Some bad_record\<rparr>],
           Acquire [])"
  by (simp add: Run_def readFile_def openInput_def openOutput_def NewClient_def
      files_example_def config_example_def run_simps)

section \<open>Runs whose records all decode\<close>

text \<open>Every action lowers the potential, so no run is longer than the potential of its
  first state.\<close>

lemma potential_step:
  assumes "step w e s = Some s'"
  shows "potential s' < potential s"
proof (cases e)
  case EvMain
  with assms show ?thesis
    by (auto simp: step_def main_step_def write_step_cases potential_def
        split: mpc.splits list.splits sum.splits wstage.splits option.splits if_splits)
next
  case (EvWorker i)
  with assms have len: "i < length (workers s)"
    by (auto simp: step_def worker_step_def split: if_splits)
  let ?g = "\<lambda>wk. wpc_weight (w_pc wk)"
  from assms EvWorker len nth_le_sum_list_map [OF len, of ?g]
  show ?thesis
    by (auto simp: step_def worker_step_def set_pc_def write_step_cases
        potential_def Let_def sum_list_map_update
        split: wpc.splits prod.splits wstage.splits option.splits if_splits)
next
  case EvCancel
  with assms show ?thesis
    by (auto simp: step_def potential_def split: if_splits)
qed

lemma exec_potential:
  "exec w es s = Some s' \<Longrightarrow> length es + potential s' \<le> potential s"
proof (induction es arbitrary: s)
  case Nil
  then show ?case by simp
next
  case (Cons e es)
  then obtain s1 where s1: "step w e s = Some s1" and rest: "exec w es s1 = Some s'"
    by (auto split: option.splits)
  from potential_step [OF s1] Cons.IH [OF rest] show ?case by simp
qed

text \<open>The actions of the loop in a state that is not cancelled.\<close>

lemma main_step_Decode:
  assumes "main s = Decode" and "\<not> panicked s"
  shows "step w EvMain s =
     (case input s of
        [] \<Rightarrow> Some (s\<lparr>row := row s + 1, main := Wait\<rparr>)
      | Inl err # rest \<Rightarrow>
          Some (s\<lparr>row := row s + 1, input := rest,
                  main := ReadError E_AddError
                    \<lparr>Row = row s + 1, Input = None, Output = JNull, Error = Some err\<rparr>\<rparr>)
      | Inr variables # rest \<Rightarrow>
          Some (s\<lparr>row := row s + 1, input := rest, main := Acquire variables\<rparr>))"
  using assms by (simp add: step_def main_step_def)

lemma main_step_Acquire:
  assumes "main s = Acquire variables" and "\<not> panicked s" and "\<not> ctx_done s"
  shows "step w EvMain s =
     (if connections w - cur s \<ge> 1 then Some (s\<lparr>cur := cur s + 1, main := Go variables\<rparr>)
      else None)"
  using assms by (simp add: step_def main_step_def)

lemma main_step_Go:
  assumes "main s = Go variables" and "\<not> panicked s"
  shows "step w EvMain s =
     Some (s\<lparr>wg := wg s + 1,
             workers := workers s @ [\<lparr>w_row = row s, w_variables = variables, w_pc = WCall\<rparr>],
             main := Decode\<rparr>)"
  using assms by (simp add: step_def main_step_def)

lemma main_step_Wait:
  assumes "main s = Wait" and "\<not> panicked s"
  shows "step w EvMain s = (if wg s = 0 then Some (s\<lparr>main := Return None\<rparr>) else None)"
  using assms by (simp add: step_def main_step_def)

lemma row_count_main_step:
  assumes nc: "\<not> ctx_done s" and np: "\<not> panicked s" and ms: "main_stage (main s) = None"
    and inp: "list_all (\<lambda>x. \<not> isl x) (input s)"
    and st: "step w EvMain s = Some s'"
  shows "row_count r s' =
           row_count r s + (if main s = Decode \<and> input s \<noteq> [] \<and> r = row s + 1 then 1 else 0)"
proof (cases "main s")
  case Decode
  show ?thesis
  proof (cases "input s")
    case Nil
    with st Decode np have "s' = s\<lparr>row := row s + 1, main := Wait\<rparr>"
      by (simp add: main_step_Decode)
    with Nil Decode show ?thesis by (simp add: row_count_def)
  next
    case (Cons x rest)
    with inp obtain v where x: "x = Inr v" by (cases x) auto
    with st Decode np Cons have "s' = s\<lparr>row := row s + 1, input := rest, main := Acquire v\<rparr>"
      by (simp add: main_step_Decode)
    with Cons Decode show ?thesis by (simp add: row_count_def)
  qed
next
  case (ReadError st' r')
  with ms show ?thesis by simp
next
  case (Acquire v)
  with st nc np have "s' = s\<lparr>cur := cur s + 1, main := Go v\<rparr>"
    by (simp add: main_step_Acquire split: if_splits)
  with Acquire show ?thesis by (simp add: row_count_def)
next
  case (AcquireError st' r' v)
  with ms show ?thesis by simp
next
  case (Go v)
  with st np have "s' = s\<lparr>wg := wg s + 1,
             workers := workers s @ [\<lparr>w_row = row s, w_variables = v, w_pc = WCall\<rparr>],
             main := Decode\<rparr>"
    by (simp add: main_step_Go)
  with Go show ?thesis by (simp add: row_count_def)
next
  case Wait
  with st np have "s' = s\<lparr>main := Return None\<rparr>"
    by (simp add: main_step_Wait split: if_splits)
  with Wait show ?thesis by (simp add: row_count_def)
next
  case (Return x)
  with st show ?thesis by (simp add: step_def)
qed

text \<open>The actions of a goroutine, one case per kind.\<close>

lemma worker_step_cases:
  assumes st: "step w (EvWorker i) s = Some s'"
  obtains
    (call) st' r where "i < length (workers s)" "w_pc (workers s ! i) = WCall"
      "s' = set_pc i (WWrite st' r) s" "Row r = w_row (workers s ! i)"
  | (count) st0 st' r x where "i < length (workers s)" "w_pc (workers s ! i) = WWrite st0 r"
      "s' = set_pc i (WWrite st' r) (s\<lparr>stats := x\<rparr>)"
  | (enc_err) r where "i < length (workers s)" "w_pc (workers s ! i) = WWrite E_Encode r"
      "s' = set_pc i WRelease (s\<lparr>errOutput := errOutput s @ [r]\<rparr>)"
  | (enc_ok) r where "i < length (workers s)" "w_pc (workers s ! i) = WWrite R_Encode r"
      "s' = set_pc i WRelease (s\<lparr>okOutput := okOutput s @ [r]\<rparr>)"
  | (release) "i < length (workers s)" "w_pc (workers s ! i) = WRelease" "1 \<le> cur s"
      "s' = set_pc i WDone (s\<lparr>cur := cur s - 1\<rparr>)"
  | (wgdone) "i < length (workers s)" "w_pc (workers s ! i) = WDone" "wg s \<noteq> 0"
      "s' = set_pc i WExit (s\<lparr>wg := wg s - 1\<rparr>)"
  | (panic) "i < length (workers s)" "s' = s\<lparr>panicked := True\<rparr>"
      "(\<exists>st0 r. w_pc (workers s ! i) = WWrite st0 r \<and> encode_error w r \<noteq> None)
       \<or> (w_pc (workers s ! i) = WRelease \<and> cur s < 1)
       \<or> (w_pc (workers s ! i) = WDone \<and> wg s = 0)"
proof -
  from st have len: "i < length (workers s)" and np: "\<not> panicked s" and nr: "\<not> returned (main s)"
    by (auto simp: step_def worker_step_def split: if_splits)
  from st np nr len have ws: "worker_step w i s = Some s'" by (simp add: step_def)
  show thesis
  proof (cases "w_pc (workers s ! i)")
    case WCall
    obtain response e where o: "outcome w (w_row (workers s ! i)) (w_variables (workers s ! i)) = (response, e)"
      by (cases "outcome w (w_row (workers s ! i)) (w_variables (workers s ! i))")
    from ws len WCall o show ?thesis
      by (cases e) (auto simp: worker_step_def Let_def intro: call [OF len WCall])
  next
    case (WWrite st0 r)
    show ?thesis
    proof (cases st0)
      case E_AddError
      with ws len WWrite show ?thesis
        by (auto simp: worker_step_def Let_def set_pc_def intro!: count [OF len WWrite])
    next
      case E_AddProcessed
      with ws len WWrite show ?thesis
        by (auto simp: worker_step_def Let_def set_pc_def intro!: count [OF len WWrite])
    next
      case E_Encode
      with ws len WWrite show ?thesis
        by (cases "encode_error w r")
           (auto simp: worker_step_def Let_def intro: enc_err [OF len] panic [OF len])
    next
      case R_AddProcessed
      with ws len WWrite show ?thesis
        by (auto simp: worker_step_def Let_def set_pc_def intro!: count [OF len WWrite])
    next
      case R_Encode
      with ws len WWrite show ?thesis
        by (cases "encode_error w r")
           (auto simp: worker_step_def Let_def intro: enc_ok [OF len] panic [OF len])
    qed
  next
    case WRelease
    with ws len show ?thesis
      by (cases "cur s - 1 < 0")
         (auto simp: worker_step_def Let_def intro: release [OF len] panic [OF len])
  next
    case WDone
    with ws len show ?thesis
      by (cases "wg s = 0")
         (auto simp: worker_step_def Let_def intro: wgdone [OF len] panic [OF len])
  next
    case WExit
    with ws len show ?thesis by (simp add: worker_step_def Let_def)
  qed
qed

lemma main_step_cases:
  assumes st: "step w EvMain s = Some s'" and nc: "\<not> ctx_done s"
    and ms: "main_stage (main s) = None"
    and inp: "list_all (\<lambda>x. \<not> isl x) (input s)"
  obtains
    (eof) "main s = Decode" "input s = []" "s' = s\<lparr>row := row s + 1, main := Wait\<rparr>"
  | (read) v rest where "main s = Decode" "input s = Inr v # rest"
      "s' = s\<lparr>row := row s + 1, input := rest, main := Acquire v\<rparr>"
  | (acquire) v where "main s = Acquire v" "1 \<le> connections w - cur s"
      "s' = s\<lparr>cur := cur s + 1, main := Go v\<rparr>"
  | (go) v where "main s = Go v"
      "s' = s\<lparr>wg := wg s + 1,
              workers := workers s @ [\<lparr>w_row = row s, w_variables = v, w_pc = WCall\<rparr>],
              main := Decode\<rparr>"
  | (wait) "main s = Wait" "wg s = 0" "s' = s\<lparr>main := Return None\<rparr>"
proof -
  from st have np: "\<not> panicked s" by (auto simp: step_def split: if_splits)
  show thesis
  proof (cases "main s")
    case Decode
    show ?thesis
    proof (cases "input s")
      case Nil
      with st Decode np show ?thesis by (auto simp: main_step_Decode intro: eof)
    next
      case (Cons x rest)
      with inp obtain v where x: "x = Inr v" by (cases x) auto
      with st Decode np Cons show ?thesis by (auto simp: main_step_Decode intro: read)
    qed
  next
    case (ReadError st' r')
    with ms show ?thesis by simp
  next
    case (Acquire v)
    with st nc np show ?thesis
      by (auto simp: main_step_Acquire split: if_splits intro: acquire)
  next
    case (AcquireError st' r' v)
    with ms show ?thesis by simp
  next
    case (Go v)
    with st np show ?thesis by (auto simp: main_step_Go intro: go)
  next
    case Wait
    with st np show ?thesis by (auto simp: main_step_Wait split: if_splits intro: wait)
  next
    case (Return x)
    with st show ?thesis by (simp add: step_def)
  qed
qed

lemma clean_main_step:
  assumes c: "clean n s" and st: "step w EvMain s = Some s'"
  shows "clean n s'"
proof -
  from c have nc: "\<not> ctx_done s" and np: "\<not> panicked s" and ms: "main_stage (main s) = None"
    and inp: "list_all (\<lambda>x. \<not> isl x) (input s)"
    by (simp_all add: clean_def)
  note rc = row_count_main_step [OF nc np ms inp st]
  from c have wgs: "wg s = sum_list (map running (workers s))" by (simp add: clean_def)
  note wg' = wg_counts_running_step [OF wgs st]
  from st nc ms inp show ?thesis
  proof (cases rule: main_step_cases)
    case eof
    from c eof(1,2) have "rows_read s' = rows_read s"
      unfolding eof(3) by (simp add: rows_read_def)
    with c rc wg' eof(1,2) show ?thesis
      unfolding clean_def by (auto simp add: eof(3))
  next
    case (read v rest)
    from c read(1,2) have "rows_read s' = rows_read s + 1" and "rows_read s = row s"
      unfolding read(3) by (simp_all add: rows_read_def)
    with c rc wg' read(1,2) show ?thesis
      unfolding clean_def by (auto simp add: read(3))
  next
    case (acquire v)
    from c acquire(1) have "rows_read s' = rows_read s"
      unfolding acquire(3) by (simp add: rows_read_def)
    with c rc wg' acquire(1) show ?thesis
      unfolding clean_def by (auto simp add: acquire(3))
  next
    case (go v)
    from c go(1) have "rows_read s' = rows_read s"
      unfolding go(2) by (simp add: rows_read_def)
    with c rc wg' go(1) show ?thesis
      unfolding clean_def by (auto simp add: go(2) running_def)
  next
    case wait
    from c wait(1) have "rows_read s' = rows_read s"
      unfolding wait(3) by (simp add: rows_read_def)
    with c rc wg' wait(1) show ?thesis
      unfolding clean_def by (auto simp add: wait(3))
  qed
qed

lemma set_pc_fields [simp]:
  "input (set_pc i pc s) = input s" "row (set_pc i pc s) = row s"
  "main (set_pc i pc s) = main s" "cur (set_pc i pc s) = cur s" "wg (set_pc i pc s) = wg s"
  "okOutput (set_pc i pc s) = okOutput s" "errOutput (set_pc i pc s) = errOutput s"
  "stats (set_pc i pc s) = stats s" "ctx_done (set_pc i pc s) = ctx_done s"
  "panicked (set_pc i pc s) = panicked s"
  "workers (set_pc i pc s) = (workers s)[i := (workers s ! i)\<lparr>w_pc := pc\<rparr>]"
  by (simp_all add: set_pc_def)

lemma sum_workers_set_pc:
  assumes "i < length xs"
  shows "sum_list (map (\<lambda>wk. g (w_row wk) (w_pc wk)) (xs[i := (xs ! i)\<lparr>w_pc := pc\<rparr>]))
           = sum_list (map (\<lambda>wk. g (w_row wk) (w_pc wk)) xs) + g (w_row (xs ! i)) pc
               - (g (w_row (xs ! i)) (w_pc (xs ! i)) :: nat)"
  using sum_list_map_update [OF assms, of "\<lambda>wk. g (w_row wk) (w_pc wk)" "(xs ! i)\<lparr>w_pc := pc\<rparr>"]
  by simp

lemma nth_le_sum_workers:
  assumes "i < length xs"
  shows "g (w_row (xs ! i)) (w_pc (xs ! i))
           \<le> (sum_list (map (\<lambda>wk. g (w_row wk) (w_pc wk)) xs) :: nat)"
  using nth_le_sum_list_map [OF assms, of "\<lambda>wk. g (w_row wk) (w_pc wk)"] by simp

lemma write_of_row_nth:
  assumes "list_all (\<lambda>wk. write_of_row (w_row wk) (w_pc wk)) xs" and "i < length xs"
    and "w_pc (xs ! i) = WWrite st0 rec"
  shows "Row rec = w_row (xs ! i)"
proof -
  from assms(1,2) have "write_of_row (w_row (xs ! i)) (w_pc (xs ! i))"
    by (simp add: list_all_length)
  with assms(3) show ?thesis by simp
qed

lemma row_count_worker_step:
  assumes wr: "list_all (\<lambda>wk. write_of_row (w_row wk) (w_pc wk)) (workers s)"
    and st: "step w (EvWorker i) s = Some s'"
  shows "row_count r s' = row_count r s \<or> panicked s'"
proof -
  let ?g = "\<lambda>n pc. if unwritten pc \<and> n = r then 1 else 0 :: nat"
  have rc: "row_count r t =
     count_list (map Row (okOutput t)) r + count_list (map Row (errOutput t)) r
       + sum_list (map (\<lambda>wk. ?g (w_row wk) (w_pc wk)) (workers t))
       + (if holds_row (main t) \<and> row t = r then 1 else 0)" for t
    by (simp add: row_count_def)
  from st show ?thesis
  proof (cases rule: worker_step_cases)
    case (call st' rec)
    from nth_le_sum_workers [OF call(1), of ?g] call show ?thesis
      by (simp add: rc sum_workers_set_pc [OF call(1), of ?g])
  next
    case (count st0 st' rec x)
    from nth_le_sum_workers [OF count(1), of ?g] count show ?thesis
      by (simp add: rc sum_workers_set_pc [OF count(1), of ?g])
  next
    case (enc_err rec)
    from write_of_row_nth [OF wr enc_err(1,2)] have "Row rec = w_row (workers s ! i)" .
    with nth_le_sum_workers [OF enc_err(1), of ?g] enc_err show ?thesis
      by (simp add: rc sum_workers_set_pc [OF enc_err(1), of ?g])
  next
    case (enc_ok rec)
    from write_of_row_nth [OF wr enc_ok(1,2)] have "Row rec = w_row (workers s ! i)" .
    with nth_le_sum_workers [OF enc_ok(1), of ?g] enc_ok show ?thesis
      by (simp add: rc sum_workers_set_pc [OF enc_ok(1), of ?g])
  next
    case release
    from nth_le_sum_workers [OF release(1), of ?g] release show ?thesis
      by (simp add: rc sum_workers_set_pc [OF release(1), of ?g])
  next
    case wgdone
    from nth_le_sum_workers [OF wgdone(1), of ?g] wgdone show ?thesis
      by (simp add: rc sum_workers_set_pc [OF wgdone(1), of ?g])
  next
    case panic
    then show ?thesis by simp
  qed
qed

lemma clean_same_main:
  assumes c: "clean n s"
    and fields: "ctx_done s' = ctx_done s" "panicked s' = panicked s" "main s' = main s"
      "input s' = input s" "row s' = row s"
    and rc: "\<And>r. row_count r s' = row_count r s"
    and wr: "list_all (\<lambda>wk. write_of_row (w_row wk) (w_pc wk)) (workers s')"
    and wg: "wg s' = sum_list (map running (workers s'))"
    and cur: "cur s' = int (sum_list (map (\<lambda>wk. holding (w_pc wk)) (workers s')))
                 + (case main s of Go variables \<Rightarrow> 1 | _ \<Rightarrow> 0)"
  shows "clean n s'"
  using c unfolding clean_def rows_read_def
  by (auto simp add: fields rc wr wg cur split: if_splits)

lemma list_all_update:
  "list_all P xs \<Longrightarrow> P y \<Longrightarrow> list_all P (xs[i := y])"
  by (induction xs arbitrary: i) (auto split: nat.splits)

lemma clean_worker_step:
  assumes c: "clean n s" and st: "step w (EvWorker i) s = Some s'"
    and enc: "\<And>r. encode_error w r = None"
  shows "clean n s'"
proof -
  from c have wr: "list_all (\<lambda>wk. write_of_row (w_row wk) (w_pc wk)) (workers s)"
    and wgs: "wg s = sum_list (map running (workers s))"
    and curs: "cur s = int (sum_list (map (\<lambda>wk. holding (w_pc wk)) (workers s)))
                 + (case main s of Go variables \<Rightarrow> 1 | _ \<Rightarrow> 0)"
    by (simp_all add: clean_def)
  note wg' = wg_counts_running_step [OF wgs st]
  note rc = row_count_worker_step [OF wr st]
  let ?h = "\<lambda>(n::nat) pc. holding pc"
  let ?r = "\<lambda>(n::nat) pc. if pc = WExit then 0 else 1 :: nat"
  have hold: "(0::int) \<le> (case main s of Go variables \<Rightarrow> 1 | _ \<Rightarrow> 0)"
    by (cases "main s") simp_all
  from st show ?thesis
  proof (cases rule: worker_step_cases)
    case (call st' rec)
    from call(3) have np: "panicked s' = panicked s" by simp
    with c rc have rc': "\<And>r. row_count r s' = row_count r s" by (auto simp: clean_def)
    from wr call have wr': "list_all (\<lambda>wk. write_of_row (w_row wk) (w_pc wk)) (workers s')"
      by (simp add: list_all_update)
    from curs nth_le_sum_workers [OF call(1), of ?h] call
    have cur': "cur s' = int (sum_list (map (\<lambda>wk. holding (w_pc wk)) (workers s')))
                 + (case main s of Go variables \<Rightarrow> 1 | _ \<Rightarrow> 0)"
      by (simp add: sum_workers_set_pc [OF call(1), of ?h])
    from call(3) show ?thesis
      by (intro clean_same_main [OF c _ _ _ _ _ rc' wr' wg' cur']) simp_all
  next
    case (count st0 st' rec x)
    from count(3) have np: "panicked s' = panicked s" by simp
    with c rc have rc': "\<And>r. row_count r s' = row_count r s" by (auto simp: clean_def)
    from write_of_row_nth [OF wr count(1,2)] wr count
    have wr': "list_all (\<lambda>wk. write_of_row (w_row wk) (w_pc wk)) (workers s')"
      by (simp add: list_all_update)
    from curs nth_le_sum_workers [OF count(1), of ?h] count
    have cur': "cur s' = int (sum_list (map (\<lambda>wk. holding (w_pc wk)) (workers s')))
                 + (case main s of Go variables \<Rightarrow> 1 | _ \<Rightarrow> 0)"
      by (simp add: sum_workers_set_pc [OF count(1), of ?h])
    from count(3) show ?thesis
      by (intro clean_same_main [OF c _ _ _ _ _ rc' wr' wg' cur']) simp_all
  next
    case (enc_err rec)
    from enc_err(3) have np: "panicked s' = panicked s" by simp
    with c rc have rc': "\<And>r. row_count r s' = row_count r s" by (auto simp: clean_def)
    from wr enc_err have wr': "list_all (\<lambda>wk. write_of_row (w_row wk) (w_pc wk)) (workers s')"
      by (simp add: list_all_update)
    from curs nth_le_sum_workers [OF enc_err(1), of ?h] enc_err
    have cur': "cur s' = int (sum_list (map (\<lambda>wk. holding (w_pc wk)) (workers s')))
                 + (case main s of Go variables \<Rightarrow> 1 | _ \<Rightarrow> 0)"
      by (simp add: sum_workers_set_pc [OF enc_err(1), of ?h])
    from enc_err(3) show ?thesis
      by (intro clean_same_main [OF c _ _ _ _ _ rc' wr' wg' cur']) simp_all
  next
    case (enc_ok rec)
    from enc_ok(3) have np: "panicked s' = panicked s" by simp
    with c rc have rc': "\<And>r. row_count r s' = row_count r s" by (auto simp: clean_def)
    from wr enc_ok have wr': "list_all (\<lambda>wk. write_of_row (w_row wk) (w_pc wk)) (workers s')"
      by (simp add: list_all_update)
    from curs nth_le_sum_workers [OF enc_ok(1), of ?h] enc_ok
    have cur': "cur s' = int (sum_list (map (\<lambda>wk. holding (w_pc wk)) (workers s')))
                 + (case main s of Go variables \<Rightarrow> 1 | _ \<Rightarrow> 0)"
      by (simp add: sum_workers_set_pc [OF enc_ok(1), of ?h])
    from enc_ok(3) show ?thesis
      by (intro clean_same_main [OF c _ _ _ _ _ rc' wr' wg' cur']) simp_all
  next
    case release
    from release(4) have np: "panicked s' = panicked s" by simp
    with c rc have rc': "\<And>r. row_count r s' = row_count r s" by (auto simp: clean_def)
    from wr release have wr': "list_all (\<lambda>wk. write_of_row (w_row wk) (w_pc wk)) (workers s')"
      by (simp add: list_all_update)
    from curs nth_le_sum_workers [OF release(1), of ?h] release
    have cur': "cur s' = int (sum_list (map (\<lambda>wk. holding (w_pc wk)) (workers s')))
                 + (case main s of Go variables \<Rightarrow> 1 | _ \<Rightarrow> 0)"
      by (simp add: sum_workers_set_pc [OF release(1), of ?h])
    from release(4) show ?thesis
      by (intro clean_same_main [OF c _ _ _ _ _ rc' wr' wg' cur']) simp_all
  next
    case wgdone
    from wgdone(4) have np: "panicked s' = panicked s" by simp
    with c rc have rc': "\<And>r. row_count r s' = row_count r s" by (auto simp: clean_def)
    from wr wgdone have wr': "list_all (\<lambda>wk. write_of_row (w_row wk) (w_pc wk)) (workers s')"
      by (simp add: list_all_update)
    from curs nth_le_sum_workers [OF wgdone(1), of ?h] wgdone
    have cur': "cur s' = int (sum_list (map (\<lambda>wk. holding (w_pc wk)) (workers s')))
                 + (case main s of Go variables \<Rightarrow> 1 | _ \<Rightarrow> 0)"
      by (simp add: sum_workers_set_pc [OF wgdone(1), of ?h])
    from wgdone(4) show ?thesis
      by (intro clean_same_main [OF c _ _ _ _ _ rc' wr' wg' cur']) simp_all
  next
    case panic
    from panic(3) show ?thesis
    proof (elim disjE exE conjE)
      fix st0 rec
      assume "encode_error w rec \<noteq> None"
      with enc show ?thesis by simp
    next
      assume a: "w_pc (workers s ! i) = WRelease" and b: "cur s < 1"
      from nth_le_sum_workers [OF panic(1), of ?h] a
      have "1 \<le> sum_list (map (\<lambda>wk. holding (w_pc wk)) (workers s))" by simp
      with curs hold b show ?thesis by simp
    next
      assume a: "w_pc (workers s ! i) = WDone" and b: "wg s = 0"
      from nth_le_sum_list_map [OF panic(1), of running] a
      have "1 \<le> sum_list (map running (workers s))" by (simp add: running_def)
      with wgs b have False by linarith
      then show ?thesis ..
    qed
  qed
qed

lemma exec_invariant_on:
  assumes "exec w es s0 = Some s" and "P s0"
    and "\<And>s e s'. P s \<Longrightarrow> e \<in> set es \<Longrightarrow> step w e s = Some s' \<Longrightarrow> P s'"
  shows "P s"
  using assms
proof (induction es arbitrary: s0)
  case Nil
  then show ?case by simp
next
  case (Cons e es)
  from Cons.prems(1) obtain s1 where s1: "step w e s0 = Some s1" and rest: "exec w es s1 = Some s"
    by (auto split: option.splits)
  from Cons.prems(3) [OF Cons.prems(2) _ s1] have "P s1" by simp
  show ?case
  proof (rule Cons.IH [OF rest \<open>P s1\<close>])
    fix t e' t'
    assume "P t" and "e' \<in> set es" and "step w e' t = Some t'"
    then show "P t'" by (intro Cons.prems(3) [of t e' t']) simp_all
  qed
qed

lemma clean_init: "clean (length vs) (RunWith_init (map Inr vs) st)"
  by (simp add: clean_def RunWith_init_def row_count_def rows_read_def list_all_iff)

lemma clean_step:
  assumes "clean n s" and "step w e s = Some s'" and "e \<noteq> EvCancel"
    and "\<And>r. encode_error w r = None"
  shows "clean n s'"
proof (cases e)
  case EvMain
  with assms(1,2) show ?thesis by (simp add: clean_main_step)
next
  case (EvWorker i)
  with assms(2) have "step w (EvWorker i) s = Some s'" by simp
  from clean_worker_step [OF assms(1) this assms(4)] show ?thesis .
next
  case EvCancel
  with assms(3) show ?thesis by simp
qed

lemma clean_exec:
  assumes "exec w es (RunWith_init (map Inr vs) st) = Some s" and "EvCancel \<notin> set es"
    and "\<And>r. encode_error w r = None"
  shows "clean (length vs) s"
proof (rule exec_invariant_on [OF assms(1)])
  show "clean (length vs) (RunWith_init (map Inr vs) st)" by (rule clean_init)
next
  fix s e s'
  assume "e \<in> set es"
  assume "clean (length vs) s" and "step w e s = Some s'"
  moreover from \<open>e \<in> set es\<close> assms(2) have "e \<noteq> EvCancel" by auto
  ultimately show "clean (length vs) s'"
    using assms(3) by (rule clean_step)
qed

lemma sum_list_pos_nth:
  "1 \<le> sum_list (map g xs) \<Longrightarrow> \<exists>i<length xs. 1 \<le> (g (xs ! i) :: nat)"
proof (induction xs)
  case Nil
  then show ?case by simp
next
  case (Cons a xs)
  show ?case
  proof (cases "1 \<le> g a")
    case True
    then show ?thesis by (intro exI [of _ 0]) simp
  next
    case False
    with Cons.prems have "1 \<le> sum_list (map g xs)" by simp
    from Cons.IH [OF this] obtain i where "i < length xs" "1 \<le> g (xs ! i)" by blast
    then show ?thesis by (intro exI [of _ "Suc i"]) simp
  qed
qed

lemma worker_enabled:
  assumes "i < length (workers s)" and "w_pc (workers s ! i) \<noteq> WExit"
    and "\<not> panicked s" and "\<not> returned (main s)"
  shows "\<exists>s'. step w (EvWorker i) s = Some s'"
proof (cases "w_pc (workers s ! i)")
  case WCall
  with assms show ?thesis
    by (simp add: step_def worker_step_def Let_def split: prod.splits option.splits)
next
  case (WWrite st0 rec)
  with assms show ?thesis
    by (cases st0)
       (simp_all add: step_def worker_step_def Let_def split: prod.splits option.splits)
next
  case WRelease
  with assms show ?thesis by (simp add: step_def worker_step_def Let_def)
next
  case WDone
  with assms show ?thesis by (simp add: step_def worker_step_def Let_def)
next
  case WExit
  with assms show ?thesis by simp
qed

lemma clean_progress:
  assumes c: "clean n s" and conn: "1 \<le> connections w" and nr: "main s \<noteq> Return None"
  shows "\<exists>e s'. e \<noteq> EvCancel \<and> step w e s = Some s'"
proof -
  from c have np: "\<not> panicked s" and nc: "\<not> ctx_done s" and ms: "main_stage (main s) = None"
    and ne: "\<not> returned_error (main s)"
    and wgs: "wg s = sum_list (map running (workers s))"
    and curs: "cur s = int (sum_list (map (\<lambda>wk. holding (w_pc wk)) (workers s)))
                 + (case main s of Go variables \<Rightarrow> 1 | _ \<Rightarrow> 0)"
    by (simp_all add: clean_def)
  show ?thesis
  proof (cases "main s")
    case Decode
    with np have "\<exists>s'. step w EvMain s = Some s'"
      by (simp add: main_step_Decode split: list.splits sum.splits)
    then show ?thesis by blast
  next
    case (ReadError st' r')
    with ms show ?thesis by simp
  next
    case (Acquire v)
    show ?thesis
    proof (cases "1 \<le> connections w - cur s")
      case True
      with Acquire np nc have "\<exists>s'. step w EvMain s = Some s'"
        by (simp add: main_step_Acquire)
      then show ?thesis by blast
    next
      case False
      with conn curs Acquire have "1 \<le> sum_list (map (\<lambda>wk. holding (w_pc wk)) (workers s))"
        by simp
      from sum_list_pos_nth [OF this] obtain i where i: "i < length (workers s)"
        and h: "1 \<le> holding (w_pc (workers s ! i))" by blast
      from h have "w_pc (workers s ! i) \<noteq> WExit" by auto
      from worker_enabled [OF i this np, of w] Acquire
      obtain s' where "step w (EvWorker i) s = Some s'" by auto
      then show ?thesis by (intro exI [of _ "EvWorker i"] exI [of _ s']) simp
    qed
  next
    case (AcquireError st' r' v)
    with ms show ?thesis by simp
  next
    case (Go v)
    with np have "\<exists>s'. step w EvMain s = Some s'" by (simp add: main_step_Go)
    then show ?thesis by blast
  next
    case Wait
    show ?thesis
    proof (cases "wg s = 0")
      case True
      with Wait np have "\<exists>s'. step w EvMain s = Some s'" by (simp add: main_step_Wait)
      then show ?thesis by blast
    next
      case False
      with wgs have "1 \<le> sum_list (map running (workers s))" by linarith
      from sum_list_pos_nth [OF this] obtain i where i: "i < length (workers s)"
        and h: "1 \<le> running (workers s ! i)" by blast
      from h have "w_pc (workers s ! i) \<noteq> WExit" by (auto simp: running_def)
      from worker_enabled [OF i this np, of w] Wait
      obtain s' where "step w (EvWorker i) s = Some s'" by auto
      then show ?thesis by (intro exI [of _ "EvWorker i"] exI [of _ s']) simp
    qed
  next
    case (Return x)
    with nr ne show ?thesis by (cases x) simp_all
  qed
qed

lemma count_list_le_1_distinct:
  "(\<And>x. count_list xs x \<le> 1) \<Longrightarrow> distinct xs"
proof (induction xs)
  case Nil
  then show ?case by simp
next
  case (Cons a xs)
  have "count_list xs x \<le> 1" for x
    using Cons.prems [of x] by (simp split: if_splits)
  then have d: "distinct xs" by (rule Cons.IH)
  from Cons.prems [of a] have "count_list xs a = 0" by simp
  then have "a \<notin> set xs" by (simp add: count_list_0_iff)
  with d show ?case by simp
qed

lemma count_list_characteristic:
  assumes "\<And>x. count_list xs x = (if x \<in> A then 1 else 0)"
  shows "distinct xs \<and> set xs = A"
proof
  have "count_list xs x \<le> 1" for x using assms [of x] by simp
  then show "distinct xs" by (rule count_list_le_1_distinct)
  show "set xs = A"
  proof (rule set_eqI)
    fix x
    have "x \<in> set xs \<longleftrightarrow> count_list xs x \<noteq> 0" by (simp add: count_list_0_iff)
    also have "\<dots> \<longleftrightarrow> x \<in> A" using assms [of x] by simp
    finally show "x \<in> set xs \<longleftrightarrow> x \<in> A" .
  qed
qed

lemma clean_completed:
  assumes c: "clean n s" and r: "main s = Return None"
    and ex: "list_all (\<lambda>wk. w_pc wk = WExit) (workers s)"
  shows "distinct (map Row (okOutput s @ errOutput s))
       \<and> set (map Row (okOutput s @ errOutput s)) = {1..n}
       \<and> length (okOutput s) + length (errOutput s) = n"
proof -
  have "(if unwritten (w_pc wk) \<and> w_row wk = x then 1 else 0) = (0::nat)"
    if "wk \<in> set (workers s)" for wk x
    using that ex by (auto simp: list_all_iff)
  then have z: "sum_list (map (\<lambda>wk. if unwritten (w_pc wk) \<and> w_row wk = x then 1 else 0)
                  (workers s)) = (0::nat)" for x
    by (simp add: sum_list_eq_0_iff)
  from c r have rr: "rows_read s = n" by (auto simp add: clean_def)
  from c have "row_count x s = (if 1 \<le> x \<and> x \<le> rows_read s then 1 else 0)" for x
    by (simp add: clean_def)
  with rr r have "count_list (map Row (okOutput s @ errOutput s)) x
                    = (if x \<in> {1..n} then 1 else 0)" for x
    by (simp add: row_count_def z)
  from count_list_characteristic [OF this]
  have d: "distinct (map Row (okOutput s @ errOutput s))"
    and e: "set (map Row (okOutput s @ errOutput s)) = {1..n}" by simp_all
  from distinct_card [OF d] e have "length (okOutput s @ errOutput s) = n" by simp
  with d e show ?thesis by simp
qed

lemma clean_completes:
  assumes "clean n s" and "1 \<le> connections w" and "\<And>r. encode_error w r = None"
  shows "\<exists>es' s'. EvCancel \<notin> set es' \<and> exec w es' s = Some s' \<and> main s' = Return None"
  using assms(1)
proof (induction "potential s" arbitrary: s rule: less_induct)
  case less
  show ?case
  proof (cases "main s = Return None")
    case True
    then show ?thesis by (intro exI [of _ "[]"] exI [of _ s]) simp
  next
    case False
    from clean_progress [OF less.prems assms(2) False]
    obtain e s1 where e: "e \<noteq> EvCancel" and s1: "step w e s = Some s1" by blast
    from clean_step [OF less.prems s1 e assms(3)] have c1: "clean n s1" .
    from less.hyps [OF potential_step [OF s1] c1]
    obtain es' s' where "EvCancel \<notin> set es'" "exec w es' s1 = Some s'" "main s' = Return None"
      by blast
    with e s1 show ?thesis by (intro exI [of _ "e # es'"] exI [of _ s']) simp
  qed
qed

text \<open>
  Take a run over \<open>N\<close> input records that all decode, with a positive concurrency
  limit, encoders that do not fail and no cancellation. It has at most \<open>15 * N + 4\<close>
  actions, it can always be continued to completion and cannot stop before (some action
  of the loop or of a goroutine is possible as long as \<open>RunWith\<close> has not returned), and
  at completion the two streams together hold exactly \<open>N\<close> records whose rows are
  exactly \<open>1, \<dots>, N\<close>, each once. So the rows of a run are in order wherever the loop
  does not pass through \<open>checkAndWriteError\<close> with an error.
\<close>

theorem clean_run:
  assumes conn: "1 \<le> connections w" and enc: "\<forall>r. encode_error w r = None"
    and run: "exec w es (RunWith_init (map Inr vs) st) = Some s"
    and nocancel: "EvCancel \<notin> set es"
  shows "length es \<le> 15 * length vs + 4
       \<and> (\<exists>es' s'. EvCancel \<notin> set es' \<and> exec w es' s = Some s' \<and> main s' = Return None)
       \<and> (main s \<noteq> Return None \<longrightarrow> (\<exists>e s'. e \<noteq> EvCancel \<and> step w e s = Some s'))
       \<and> (main s = Return None \<longrightarrow>
            length (okOutput s) + length (errOutput s) = length vs \<and>
            set (map Row (okOutput s @ errOutput s)) = {1..length vs} \<and>
            distinct (map Row (okOutput s @ errOutput s)))"
proof -
  from enc have enc': "\<And>r. encode_error w r = None" by simp
  from clean_exec [OF run nocancel enc'] have c: "clean (length vs) s" .
  from exec_potential [OF run] have "length es \<le> potential (RunWith_init (map Inr vs) st)"
    by simp
  then have a: "length es \<le> 15 * length vs + 4"
    by (simp add: potential_def RunWith_init_def)
  note b = clean_completes [OF c conn enc']
  have p: "\<exists>e s'. e \<noteq> EvCancel \<and> step w e s = Some s'" if "main s \<noteq> Return None"
    using clean_progress [OF c conn that] .
  have d: "length (okOutput s) + length (errOutput s) = length vs \<and>
           set (map Row (okOutput s @ errOutput s)) = {1..length vs} \<and>
           distinct (map Row (okOutput s @ errOutput s))" if r: "main s = Return None"
    using clean_completed [OF c r drained [OF run r]] by simp
  from a b p d show ?thesis by blast
qed

theorem clean_run_witness:
  "map_option (\<lambda>s. (main s, map Row (okOutput s), map Row (errOutput s)))
     (exec (world_example 1)
        [EvMain, EvMain, EvMain, EvMain,
         EvWorker 0, EvWorker 0, EvWorker 0, EvWorker 0, EvWorker 0, EvMain, EvMain,
         EvWorker 1, EvWorker 1, EvWorker 1, EvWorker 1, EvWorker 1, EvMain, EvMain]
        (RunWith_init (map Inr [[(''x'', JNum 1)], [(''x'', JNum 2)]]) SilentStats))
   = Some (Return None, [1, 2], [])"
proof -
  let ?es = "[EvMain, EvMain, EvMain, EvMain,
         EvWorker 0, EvWorker 0, EvWorker 0, EvWorker 0, EvWorker 0, EvMain, EvMain,
         EvWorker 1, EvWorker 1, EvWorker 1, EvWorker 1, EvWorker 1, EvMain, EvMain]"
  obtain s where e: "exec (world_example 1) ?es
        (RunWith_init (map Inr [[(''x'', JNum 1)], [(''x'', JNum 2)]]) SilentStats) = Some s"
    and m: "main s = Return None" and eo: "errOutput s = []"
    and r1: "Row (okOutput s ! 0) = 1"
    by (simp add: run_simps)
  have h: "1 \<le> connections (world_example 1)" "\<forall>r. encode_error (world_example 1) r = None"
    "EvCancel \<notin> set ?es"
    by (simp_all add: world_example_def)
  from clean_run [OF h(1,2) e h(3)] m eo
  have l: "length (okOutput s) = 2" and st: "set (map Row (okOutput s)) = {1..2}" by simp_all
  from l obtain a b where ab: "okOutput s = [a, b]"
    by (cases "okOutput s"; simp; cases "tl (okOutput s)"; auto)
  with st r1 have "Row a = 1" "Row b = 2" by auto
  with ab e m eo show ?thesis by simp
qed

text \<open>
  C1, at an input of one record that does not decode (with one permit, working encoders
  and no cancellation). After the failure record for row 1 is written the loop goes on
  to \<open>Acquire\<close> and launches the call of row 1 with the empty variable set, so the
  completed run has two records for its single input record, both with row 1: one on
  the error stream and one on the success stream. The code does not keep to exactly
  one record per row here.
\<close>

theorem read_failure_yields_two_records:
  "map_option (\<lambda>s. (main s, map Row (okOutput s), map Row (errOutput s)))
     (exec (world_example 1)
        [EvMain, EvMain, EvMain, EvMain, EvMain, EvMain,
         EvWorker 0, EvWorker 0, EvWorker 0, EvWorker 0, EvWorker 0, EvMain, EvMain]
        (RunWith_init [Inl bad_record] SilentStats))
   = Some (Return None, [1], [1])"
  by (simp add: run_simps)

end
